theory Spec2Isabelle
  imports Main "HOL-Library.Word" "HOL-Library.AList" "HOL-Library.Multiset"
begin

section \<open>MapManager: a shallow embedding of MapManager.cpp\<close>

type_synonym u32 = "32 word"
type_synonym u64 = "64 word"

subsection \<open>Fatal outcomes\<close>

text \<open>
  The ways a call of this file ends the process instead of returning normally: a failed
  \<open>ASSERT\<close>/\<open>AssertEntry\<close>/\<open>ASSERT_NOTNULL\<close>, an access to a bit outside the
  \<open>dynamic_bitset\<close>, and the instance id overflow of \<open>GenerateInstanceId\<close>, which requests
  the shutdown of the server and hands back the cursor, which \<open>InstanceIdOverflow\<close> carries.
\<close>

datatype fatal = AssertFailed | OutOfRange | InstanceIdOverflow u32

subsection \<open>The instance id allocator\<close>

text \<open>
  \<open>_nextInstanceId\<close> is a \<open>uint32\<close>, \<open>_freeInstanceIds\<close> a \<open>boost::dynamic_bitset\<close>:
  a growable vector of bits indexed by \<open>size_t\<close>.
\<close>

record allocator =
  nextInstanceId :: u32
  freeInstanceIds :: "bool list"

text \<open>The constructor: \<open>_nextInstanceId(0)\<close> and an empty bitset.\<close>

definition MapManager_alloc :: allocator where
  "MapManager_alloc = \<lparr>nextInstanceId = 0, freeInstanceIds = []\<rparr>"

text \<open>\<open>dynamic_bitset::resize(n, v)\<close>: keeps the first \<open>n\<close> bits, new bits get \<open>v\<close>.\<close>

definition resize :: "nat \<Rightarrow> bool \<Rightarrow> bool list \<Rightarrow> bool list" where
  "resize n v bs = take n bs @ replicate (n - length bs) v"

text \<open>
  \<open>dynamic_bitset::find_next(pos)\<close>: the lowest index above \<open>pos\<close> whose bit is set,
  \<open>npos\<close> (here \<open>None\<close>) when there is none.
\<close>

definition find_next :: "bool list \<Rightarrow> nat \<Rightarrow> nat option" where
  "find_next bs pos = List.find (\<lambda>i. bs ! i) [Suc pos ..< length bs]"

text \<open>
  \<open>InitInstanceIds\<close>. The argument is the result of the query for the highest instance id
  in use (\<open>None\<close> when the query gives no result); \<open>GetUInt64() + 2\<close> is 64-bit arithmetic,
  \<open>_nextInstanceId + 1\<close> is 32-bit arithmetic.
\<close>

definition InitInstanceIds :: "u64 option \<Rightarrow> allocator \<Rightarrow> fatal + allocator" where
  "InitInstanceIds result s =
     (let nxt = (1 :: u32);
          n = (case result of Some maxid \<Rightarrow> unat (maxid + 2) | None \<Rightarrow> unat (nxt + 1));
          bs = resize n True (freeInstanceIds s)
      in if 0 < length bs
         then Inr \<lparr>nextInstanceId = nxt, freeInstanceIds = bs[0 := False]\<rparr>
         else Inl OutOfRange)"

definition RegisterInstanceId :: "u32 \<Rightarrow> allocator \<Rightarrow> fatal + allocator" where
  "RegisterInstanceId instanceId s =
     (if unat instanceId < length (freeInstanceIds s)
      then let bs = (freeInstanceIds s)[unat instanceId := False]
           in Inr \<lparr>nextInstanceId =
                     (if nextInstanceId s = instanceId then nextInstanceId s + 1
                      else nextInstanceId s),
                   freeInstanceIds = bs\<rparr>
      else Inl OutOfRange)"

definition GenerateInstanceId :: "allocator \<Rightarrow> fatal + (u32 \<times> allocator)" where
  "GenerateInstanceId s =
     (if nextInstanceId s = 0xFFFFFFFF then Inl (InstanceIdOverflow (nextInstanceId s))
      else
        let newInstanceId = nextInstanceId s in
        if \<not> unat newInstanceId < length (freeInstanceIds s) then Inl AssertFailed
        else
          let bs = (freeInstanceIds s)[unat newInstanceId := False] in
          (case find_next bs (unat (nextInstanceId s)) of
             None \<Rightarrow>
               Inr (newInstanceId,
                    \<lparr>nextInstanceId = of_nat (length bs), freeInstanceIds = bs @ [True]\<rparr>)
           | Some nextFreedId \<Rightarrow>
               Inr (newInstanceId,
                    \<lparr>nextInstanceId = of_nat nextFreedId, freeInstanceIds = bs\<rparr>)))"

definition FreeInstanceId :: "u32 \<Rightarrow> allocator \<Rightarrow> fatal + allocator" where
  "FreeInstanceId instanceId s =
     (if unat instanceId < length (freeInstanceIds s)
      then Inr \<lparr>nextInstanceId = min instanceId (nextInstanceId s),
                freeInstanceIds = (freeInstanceIds s)[unat instanceId := True]\<rparr>
      else Inl OutOfRange)"

subsection \<open>Runs of the allocator\<close>

text \<open>
  At startup the instance ids found in the database are registered one after the other
  (\<open>RegisterInstanceId\<close> says: in ascending order); \<open>replay\<close> is that loop.
\<close>

fun replay :: "u32 list \<Rightarrow> allocator \<Rightarrow> fatal + allocator" where
  "replay [] s = Inr s"
| "replay (i # ids) s =
     (case RegisterInstanceId i s of Inl e \<Rightarrow> Inl e | Inr s' \<Rightarrow> replay ids s')"

text \<open>\<open>n\<close> successive calls of \<open>GenerateInstanceId\<close>; a fatal outcome ends the run.\<close>

fun allocate_n :: "nat \<Rightarrow> allocator \<Rightarrow> fatal + (u32 list \<times> allocator)" where
  "allocate_n 0 s = Inr ([], s)"
| "allocate_n (Suc n) s =
     (case GenerateInstanceId s of
        Inl e \<Rightarrow> Inl e
      | Inr (x, s1) \<Rightarrow>
          (case allocate_n n s1 of Inl e \<Rightarrow> Inl e | Inr (xs, s2) \<Rightarrow> Inr (x # xs, s2)))"

text \<open>
  Arbitrary sequences of the four operations, and the identifiers that the calls of
  \<open>GenerateInstanceId\<close> in such a sequence hand back. A call that ends the process ends the
  sequence; the overflow call still hands back the cursor.
\<close>

datatype alloc_op = Initialize "u64 option" | Reserve u32 | Allocate | Release u32

fun allocations :: "alloc_op list \<Rightarrow> allocator \<Rightarrow> u32 list" where
  "allocations [] s = []"
| "allocations (Initialize r # ops) s =
     (case InitInstanceIds r s of Inl e \<Rightarrow> [] | Inr s' \<Rightarrow> allocations ops s')"
| "allocations (Reserve i # ops) s =
     (case RegisterInstanceId i s of Inl e \<Rightarrow> [] | Inr s' \<Rightarrow> allocations ops s')"
| "allocations (Allocate # ops) s =
     (case GenerateInstanceId s of
        Inl (InstanceIdOverflow v) \<Rightarrow> [v]
      | Inl e \<Rightarrow> []
      | Inr (v, s') \<Rightarrow> v # allocations ops s')"
| "allocations (Release i # ops) s =
     (case FreeInstanceId i s of Inl e \<Rightarrow> [] | Inr s' \<Rightarrow> allocations ops s')"

text \<open>The size that \<open>InitInstanceIds\<close> gives the table.\<close>

definition init_size :: "u64 option \<Rightarrow> nat" where
  "init_size r = (case r of Some maxid \<Rightarrow> unat (maxid + 2) | None \<Rightarrow> 2)"


text \<open>
  The states of the allocator in regular operation, together with the set of identifiers
  handed out so far: initialisation of the freshly constructed manager, registration of
  the stored ids in ascending order (all below the slack slot), then any interleaving of
  \<open>GenerateInstanceId\<close> and of \<open>FreeInstanceId\<close> on identifiers that were handed out and
  are in use.
\<close>

inductive reachable :: "allocator \<Rightarrow> u32 set \<Rightarrow> bool" where
  startup:
    "InitInstanceIds r MapManager_alloc = Inr s0 \<Longrightarrow> 2 \<le> length (freeInstanceIds s0) \<Longrightarrow>
     sorted_wrt (<) ids \<Longrightarrow>
     \<forall>i\<in>set ids. i \<noteq> 0 \<and> Suc (unat i) < length (freeInstanceIds s0) \<and> i \<noteq> 0xFFFFFFFF \<Longrightarrow>
     replay ids s0 = Inr s \<Longrightarrow> reachable s {}"
| allocate:
    "reachable s A \<Longrightarrow> GenerateInstanceId s = Inr (x, s') \<Longrightarrow> reachable s' (insert x A)"
| release:
    "reachable s A \<Longrightarrow> x \<in> A \<Longrightarrow> \<not> freeInstanceIds s ! unat x \<Longrightarrow>
     FreeInstanceId x s = Inr s' \<Longrightarrow> reachable s' A"

subsection \<open>Invariants of the allocator\<close>

text \<open>
  The cursor is a nonzero valid index, its slot is free and no lower slot is; the last
  slot that a 32-bit cursor can address is free.
\<close>

definition alloc_inv :: "allocator \<Rightarrow> bool" where
  "alloc_inv s \<longleftrightarrow>
     (let n = unat (nextInstanceId s); bs = freeInstanceIds s
      in 0 < n \<and> n < length bs \<and> bs ! n \<and> (\<forall>i<n. \<not> bs ! i)
         \<and> bs ! (min (length bs - 1) (2 ^ 32 - 1)))"

text \<open>While the stored ids are registered: every slot from \<open>b\<close> on is still free.\<close>

definition replay_inv :: "nat \<Rightarrow> allocator \<Rightarrow> bool" where
  "replay_inv b s \<longleftrightarrow>
     (let n = unat (nextInstanceId s); bs = freeInstanceIds s
      in 0 < n \<and> n \<le> b \<and> b < length bs \<and> b \<le> 2 ^ 32 - 1 \<and> bs ! n \<and> (\<forall>i<n. \<not> bs ! i)
         \<and> (\<forall>i. b \<le> i \<and> i < length bs \<longrightarrow> bs ! i))"

text \<open>Right after initialisation every slot from the cursor on is free.\<close>

definition fresh_inv :: "allocator \<Rightarrow> bool" where
  "fresh_inv s \<longleftrightarrow> alloc_inv s \<and>
     (\<forall>i. unat (nextInstanceId s) \<le> i \<and> i < length (freeInstanceIds s) \<longrightarrow> freeInstanceIds s ! i)"

section \<open>The data of the map manager and of its collaborators\<close>

text \<open>
  Map objects live on a heap: an address is an index into the list of objects, and
  \<open>new\<close> appends an object. A \<open>Difficulty\<close> is an 8-bit enumeration value.
\<close>

type_synonym addr = nat

type_synonym Difficulty = "8 word"

text \<open>
  A row of the map store. \<open>ParentMapID\<close> and \<open>CosmeticParentMapID\<close> are signed, \<open>-1\<close>
  meaning none. \<open>Instanceable()\<close>, \<open>IsDungeon()\<close>, \<open>IsRaid()\<close> and \<open>Expansion()\<close> are
  methods of the row that are declared outside this file: they are taken as fields. The
  map name is only used for logging and is left out.
\<close>

record MapEntry =
  ID :: u32
  ParentMapID :: int
  CosmeticParentMapID :: int
  Instanceable :: bool
  IsDungeon :: bool
  IsRaid :: bool
  Expansion :: nat

text \<open>
\<open>InstanceTemplate::Parent\<close> is a map id, 0 meaning that there is no parent.
\<close>

record InstanceTemplate =
  Parent :: u32
  ScriptId :: u32

text \<open>
An access requirement is only handed on to \<open>Player::Satisfy\<close>.
\<close>

typedecl AccessRequirement

text \<open>
  A group's binding; \<open>save\<close> may be null. Of an \<open>InstanceSave\<close> only \<open>GetInstanceId()\<close> is
  read, so the save stands for its instance id.
\<close>

record InstanceGroupBind =
  save :: "u32 option"
  perm :: bool

record Group =
  isRaidGroup :: bool
  isLFGGroup :: bool
  GetBoundInstance :: "MapEntry \<Rightarrow> InstanceGroupBind option"

text \<open>
  \<open>Map::EnterState\<close>. The first eight are the values this file names; \<open>CANNOT_ENTER_OTHER\<close>
  stands for the remaining values of the enumeration, which only a bound instance's own
  \<open>CannotEnter\<close> produces. \<open>CAN_ENTER\<close> is the value 0.
\<close>

datatype EnterState =
    CAN_ENTER
  | CANNOT_ENTER_NO_ENTRY
  | CANNOT_ENTER_UNINSTANCED_DUNGEON
  | CANNOT_ENTER_DIFFICULTY_UNAVAILABLE
  | CANNOT_ENTER_NOT_IN_RAID
  | CANNOT_ENTER_CORPSE_IN_DIFFERENT_INSTANCE
  | CANNOT_ENTER_TOO_MANY_INSTANCES
  | CANNOT_ENTER_UNSPECIFIED_REASON
  | CANNOT_ENTER_OTHER nat

text \<open>
  What the admission check reads of the player. \<open>IsAlive()\<close> and \<open>isDead()\<close> are two
  separate accessors of the death state and are kept separate.
\<close>

record Player =
  GetDifficultyID :: "MapEntry \<Rightarrow> Difficulty"
  IsGameMaster :: bool
  Satisfy :: "AccessRequirement option \<Rightarrow> u32 \<Rightarrow> bool \<Rightarrow> bool"
  GetGroup :: "Group option"
  IsAlive :: bool
  isDead :: bool
  HasCorpse :: bool
  GetCorpseLocation :: u32
  GetInstanceSave :: "u32 \<Rightarrow> u32 option"
  CheckInstanceCount :: "u32 \<Rightarrow> bool"

text \<open>
  A \<open>Map\<close> object. \<open>obj_Instanceable\<close> tells a \<open>MapInstanced\<close> from a plain \<open>Map\<close> and is
  what \<open>Map::Instanceable()\<close> answers; \<open>InstancedMaps\<close> is the table of a \<open>MapInstanced\<close>
  from instance ids to instance maps. The three flags record that
  \<open>DiscoverGridMapFiles\<close>, \<open>LoadRespawnTimes\<close> and \<open>LoadCorpseData\<close> have run.
\<close>

record MapObj =
  GetId :: u32
  obj_Instanceable :: bool
  childTerrainMaps :: "addr list"
  gridMapFilesDiscovered :: bool
  respawnTimesLoaded :: bool
  corpseDataLoaded :: bool
  InstancedMaps :: "(u32 \<times> addr) list"

text \<open>
  The registry \<open>i_maps\<close> with the heap of the objects it points to. The list holds the
  entries of the container, one for a key; its order is the order in which the keys were
  first inserted, which need not be the order in which the container is iterated (that
  order is \<open>registry_iteration\<close> below).
\<close>

record MapManager =
  i_maps :: "(u32 \<times> addr) list"
  objects :: "MapObj list"

text \<open>
  The collaborators: the map store, the object manager, the difficulty tables, the
  configuration, \<open>_parentMapData\<close> as set by \<open>InitializeParentMapData\<close> (no entry means no
  children), the answer of \<open>Map::CannotEnter\<close> for the player under evaluation and
  \<open>MapInstanced::CreateInstanceForPlayer\<close>, which are implemented outside this file.
\<close>

record World =
  sMapStore :: "MapEntry list"
  GetInstanceTemplate :: "u32 \<Rightarrow> InstanceTemplate option"
  GetDownscaledMapDifficultyData :: "u32 \<Rightarrow> Difficulty \<Rightarrow> Difficulty option"
  GetAccessRequirement :: "u32 \<Rightarrow> Difficulty \<Rightarrow> AccessRequirement option"
  CONFIG_EXPANSION :: nat
  CONFIG_INSTANCE_IGNORE_RAID :: bool
  Map_CannotEnter :: "addr \<Rightarrow> EnterState"
  parentMapData :: "u32 \<Rightarrow> u32 list"
  CreateInstanceForPlayer ::
    "addr \<Rightarrow> u32 \<Rightarrow> Player \<Rightarrow> u32 \<Rightarrow> MapManager \<Rightarrow> addr option \<times> MapManager"

subsection \<open>Lookups\<close>

text \<open>
  Modelled from the spec: the map store is implemented outside this file; the spec gives
  \<open>get(id) -> Definition | absent\<close>. \<open>sMapStore.LookupEntry\<close> is the row with the given
  id, if there is one.
\<close>

definition LookupEntry :: "World \<Rightarrow> u32 \<Rightarrow> MapEntry option" where
  "LookupEntry w mapid = List.find (\<lambda>e. ID e = mapid) (sMapStore w)"

text \<open>
  Modelled from the spec: \<open>assertGet(id) -> Definition\<close>, fatal if absent.
\<close>

definition AssertEntry :: "World \<Rightarrow> u32 \<Rightarrow> fatal + MapEntry" where
  "AssertEntry w mapid = (case LookupEntry w mapid of None \<Rightarrow> Inl AssertFailed | Some e \<Rightarrow> Inr e)"

text \<open>
  Modelled from the spec: \<open>FindBaseMap\<close> is defined in the header of the manager, outside
  this file; it is the lookup-only accessor of the registry.
\<close>

definition FindBaseMap :: "MapManager \<Rightarrow> u32 \<Rightarrow> addr option" where
  "FindBaseMap m mapId = map_of (i_maps m) mapId"

text \<open>
  Modelled from the spec: \<open>MapInstanced::FindInstanceMap\<close> is implemented outside this
  file; it looks the instance id up in the table of the instance-capable object.
\<close>

definition FindInstanceMap :: "MapObj \<Rightarrow> u32 \<Rightarrow> addr option" where
  "FindInstanceMap obj instanceId = map_of (InstancedMaps obj) instanceId"

definition FindMap :: "MapManager \<Rightarrow> u32 \<Rightarrow> u32 \<Rightarrow> addr option" where
  "FindMap m mapid instanceId =
     (case FindBaseMap m mapid of
        None \<Rightarrow> None
      | Some a \<Rightarrow>
          if \<not> obj_Instanceable (objects m ! a) then (if instanceId = 0 then Some a else None)
          else FindInstanceMap (objects m ! a) instanceId)"

subsection \<open>Creation of base maps\<close>

text \<open>
\<open>new MapInstanced(...)\<close> or \<open>new Map(...)\<close>, chosen by \<open>mapEntry->Instanceable()\<close>.
\<close>

definition new_Map :: "MapEntry \<Rightarrow> MapObj" where
  "new_Map mapEntry =
     \<lparr>GetId = ID mapEntry, obj_Instanceable = Instanceable mapEntry, childTerrainMaps = [],
      gridMapFilesDiscovered = False, respawnTimesLoaded = False, corpseDataLoaded = False,
      InstancedMaps = []\<rparr>"

text \<open>
  Modelled from the spec: \<open>Map::DiscoverGridMapFiles\<close> is implemented outside this file
  (terrain discovery for the object); only the fact that it has run is recorded.
\<close>

definition DiscoverGridMapFiles :: "addr \<Rightarrow> MapManager \<Rightarrow> MapManager" where
  "DiscoverGridMapFiles a m =
     m\<lparr>objects := (objects m)[a := (objects m ! a)\<lparr>gridMapFilesDiscovered := True\<rparr>]\<rparr>"

text \<open>
  Modelled from the spec: \<open>Map::AddChildTerrainMap\<close> is declared outside this file; the
  spec says that it attaches the child to the object: the child is appended to the
  object's child terrain maps.
\<close>

definition AddChildTerrainMap :: "addr \<Rightarrow> addr \<Rightarrow> MapManager \<Rightarrow> MapManager" where
  "AddChildTerrainMap a child m =
     m\<lparr>objects := (objects m)[a := (objects m ! a)
          \<lparr>childTerrainMaps := childTerrainMaps (objects m ! a) @ [child]\<rparr>]\<rparr>"

text \<open>
  Modelled from the spec: \<open>Map::LoadRespawnTimes\<close> and \<open>Map::LoadCorpseData\<close> are
  implemented outside this file (loading of the persistent state); only the fact that
  they have run is recorded.
\<close>

definition LoadRespawnTimes :: "addr \<Rightarrow> MapManager \<Rightarrow> MapManager" where
  "LoadRespawnTimes a m =
     m\<lparr>objects := (objects m)[a := (objects m ! a)\<lparr>respawnTimesLoaded := True\<rparr>]\<rparr>"

definition LoadCorpseData :: "addr \<Rightarrow> MapManager \<Rightarrow> MapManager" where
  "LoadCorpseData a m =
     m\<lparr>objects := (objects m)[a := (objects m ! a)\<lparr>corpseDataLoaded := True\<rparr>]\<rparr>"

text \<open>
  \<open>CreateBaseMap_i\<close>, with the loop over the children as a function of its own. The
  children of a map need not form a tree, so the recursion may not end: the first argument
  bounds the depth of the calls, and \<open>None\<close> says that the bound was reached.
\<close>

fun CreateBaseMap_i :: "World \<Rightarrow> nat \<Rightarrow> MapEntry \<Rightarrow> MapManager \<Rightarrow> (fatal + addr \<times> MapManager) option"
  and add_children :: "World \<Rightarrow> nat \<Rightarrow> addr \<Rightarrow> u32 list \<Rightarrow> MapManager \<Rightarrow> (fatal + MapManager) option"
  where
  "CreateBaseMap_i w 0 mapEntry m = None"
| "CreateBaseMap_i w (Suc n) mapEntry m =
     (let mp = length (objects m);
          m1 = m\<lparr>objects := objects m @ [new_Map mapEntry]\<rparr>;
          m2 = DiscoverGridMapFiles mp m1;
          m3 = m2\<lparr>i_maps := AList.update (ID mapEntry) mp (i_maps m2)\<rparr>
      in case add_children w n mp (parentMapData w (ID mapEntry)) m3 of
           None \<Rightarrow> None
         | Some (Inl e) \<Rightarrow> Some (Inl e)
         | Some (Inr m4) \<Rightarrow>
             Some (Inr (mp,
               if \<not> Instanceable mapEntry then LoadCorpseData mp (LoadRespawnTimes mp m4)
               else m4)))"
| "add_children w n mp [] m = Some (Inr m)"
| "add_children w n mp (childMapId # rest) m =
     (case AssertEntry w childMapId of
        Inl e \<Rightarrow> Some (Inl e)
      | Inr childEntry \<Rightarrow>
          (case CreateBaseMap_i w n childEntry m of
             None \<Rightarrow> None
           | Some (Inl e) \<Rightarrow> Some (Inl e)
           | Some (Inr (child, m1)) \<Rightarrow> add_children w n mp rest (AddChildTerrainMap mp child m1)))"

text \<open>
  The parent that \<open>CreateBaseMap\<close> creates first:
  \<open>entry->ParentMapID != -1 ? entry->ParentMapID : entry->CosmeticParentMapID\<close>, converted
  to \<open>uint32\<close>, if one of the two is not \<open>-1\<close>.
\<close>

definition parent_of :: "MapEntry \<Rightarrow> u32 option" where
  "parent_of entry =
     (if ParentMapID entry \<noteq> - 1 \<or> CosmeticParentMapID entry \<noteq> - 1
      then Some (of_int (if ParentMapID entry \<noteq> - 1 then ParentMapID entry
                         else CosmeticParentMapID entry))
      else None)"

fun CreateBaseMap :: "World \<Rightarrow> nat \<Rightarrow> u32 \<Rightarrow> MapManager \<Rightarrow> (fatal + addr \<times> MapManager) option" where
  "CreateBaseMap w 0 mapid m = None"
| "CreateBaseMap w (Suc n) mapid m =
     (case FindBaseMap m mapid of
        Some mp \<Rightarrow> Some (Inr (mp, m))
      | None \<Rightarrow>
          (case AssertEntry w mapid of
             Inl e \<Rightarrow> Some (Inl e)
           | Inr entry \<Rightarrow>
               (case parent_of entry of
                  Some parent \<Rightarrow>
                    (case CreateBaseMap w n parent m of
                       None \<Rightarrow> None
                     | Some (Inl e) \<Rightarrow> Some (Inl e)
                     | Some (Inr (p, m1)) \<Rightarrow>
                         (case FindBaseMap m1 mapid of
                            None \<Rightarrow> Some (Inl AssertFailed)
                          | Some mp \<Rightarrow> Some (Inr (mp, m1))))
                | None \<Rightarrow> CreateBaseMap_i w n entry m)))"

definition CreateMap ::
  "World \<Rightarrow> nat \<Rightarrow> u32 \<Rightarrow> Player \<Rightarrow> u32 \<Rightarrow> MapManager \<Rightarrow> (fatal + addr option \<times> MapManager) option" where
  "CreateMap w n mapid player loginInstanceId m =
     (case CreateBaseMap w n mapid m of
        None \<Rightarrow> None
      | Some (Inl e) \<Rightarrow> Some (Inl e)
      | Some (Inr (a, m1)) \<Rightarrow>
          if obj_Instanceable (objects m1 ! a)
          then Some (Inr (CreateInstanceForPlayer w a mapid player loginInstanceId m1))
          else Some (Inr (Some a, m1)))"

subsection \<open>Admission\<close>

text \<open>
  The \<open>do ... while (corpseMap)\<close> loop of \<open>PlayerCannotEnter\<close>; the result is the value of
  \<open>corpseMap\<close> after the loop. The loop need not end: \<open>None\<close> is the loop that runs forever.
\<close>

partial_function (option) corpse_walk :: "(u32 \<Rightarrow> InstanceTemplate option) \<Rightarrow> u32 \<Rightarrow> u32 \<Rightarrow> u32 option" where
  "corpse_walk tmpl mapid corpseMap =
     (if corpseMap = mapid then Some corpseMap
      else
        let corpseMap' = (case tmpl corpseMap of Some corpseInstance \<Rightarrow> Parent corpseInstance | None \<Rightarrow> 0)
        in if corpseMap' \<noteq> 0 then corpse_walk tmpl mapid corpseMap' else Some corpseMap')"

text \<open>
The condition under which the raid rule denies.
\<close>

definition raid_group_missing :: "World \<Rightarrow> MapEntry \<Rightarrow> Player \<Rightarrow> bool" where
  "raid_group_missing w entry player \<longleftrightarrow>
     IsRaid entry \<and> CONFIG_EXPANSION w \<le> Expansion entry \<and>
     (case GetGroup player of None \<Rightarrow> True | Some grp \<Rightarrow> \<not> isRaidGroup grp) \<and>
     \<not> CONFIG_INSTANCE_IGNORE_RAID w"

text \<open>
The rule on the instance the player's group is bound to; \<open>None\<close> is no denial.
\<close>

definition bound_instance_rule :: "World \<Rightarrow> MapManager \<Rightarrow> u32 \<Rightarrow> MapEntry \<Rightarrow> Player \<Rightarrow> bool \<Rightarrow> EnterState option" where
  "bound_instance_rule w m mapid entry player loginCheck =
     (case GetGroup player of
        None \<Rightarrow> None
      | Some grp \<Rightarrow>
          if loginCheck then None
          else
            (case GetBoundInstance grp entry of
               None \<Rightarrow> None
             | Some boundInstance \<Rightarrow>
                 (case save boundInstance of
                    None \<Rightarrow> None
                  | Some instanceId \<Rightarrow>
                      (case FindMap m mapid instanceId of
                         None \<Rightarrow> None
                       | Some boundMap \<Rightarrow>
                           if Map_CannotEnter w boundMap \<noteq> CAN_ENTER
                           then Some (Map_CannotEnter w boundMap) else None))))"

text \<open>
The rule on the number of instances entered per hour.
\<close>

definition instance_count_rule :: "u32 \<Rightarrow> MapEntry \<Rightarrow> Player \<Rightarrow> EnterState option" where
  "instance_count_rule mapid entry player =
     (if IsDungeon entry \<and>
         (case GetGroup player of None \<Rightarrow> True | Some grp \<Rightarrow> \<not> isLFGGroup grp)
      then
        let instanceIdToCheck = (case GetInstanceSave player mapid of Some i \<Rightarrow> i | None \<Rightarrow> 0)
        in if \<not> CheckInstanceCount player instanceIdToCheck \<and> \<not> isDead player
           then Some CANNOT_ENTER_TOO_MANY_INSTANCES else None
      else None)"

text \<open>
What \<open>PlayerCannotEnter\<close> does after the corpse rule.
\<close>

definition after_corpse_rule :: "World \<Rightarrow> MapManager \<Rightarrow> u32 \<Rightarrow> MapEntry \<Rightarrow> Player \<Rightarrow> bool \<Rightarrow> EnterState" where
  "after_corpse_rule w m mapid entry player loginCheck =
     (case bound_instance_rule w m mapid entry player loginCheck of
        Some denyReason \<Rightarrow> denyReason
      | None \<Rightarrow>
          (case instance_count_rule mapid entry player of
             Some denyReason \<Rightarrow> denyReason
           | None \<Rightarrow> CAN_ENTER))"

definition PlayerCannotEnter :: "World \<Rightarrow> MapManager \<Rightarrow> u32 \<Rightarrow> Player \<Rightarrow> bool \<Rightarrow> EnterState option" where
  "PlayerCannotEnter w m mapid player loginCheck =
     (case LookupEntry w mapid of
        None \<Rightarrow> Some CANNOT_ENTER_NO_ENTRY
      | Some entry \<Rightarrow>
          if \<not> IsDungeon entry then Some CAN_ENTER
          else case GetInstanceTemplate w mapid of
            None \<Rightarrow> Some CANNOT_ENTER_UNINSTANCED_DUNGEON
          | Some inst \<Rightarrow>
              (case GetDownscaledMapDifficultyData w mapid (GetDifficultyID player entry) of
                 None \<Rightarrow> Some CANNOT_ENTER_DIFFICULTY_UNAVAILABLE
               | Some targetDifficulty \<Rightarrow>
                   if IsGameMaster player then Some CAN_ENTER
                   else if \<not> Satisfy player (GetAccessRequirement w mapid targetDifficulty) mapid True
                     then Some CANNOT_ENTER_UNSPECIFIED_REASON
                   else if raid_group_missing w entry player
                     then Some CANNOT_ENTER_NOT_IN_RAID
                   else if \<not> IsAlive player \<and> HasCorpse player then
                     (case corpse_walk (GetInstanceTemplate w) mapid (GetCorpseLocation player) of
                        None \<Rightarrow> None
                      | Some corpseMap \<Rightarrow>
                          if corpseMap = 0 then Some CANNOT_ENTER_CORPSE_IN_DIFFERENT_INSTANCE
                          else Some (after_corpse_rule w m mapid entry player loginCheck))
                   else Some (after_corpse_rule w m mapid entry player loginCheck)))"

subsection \<open>The update pass\<close>

text \<open>
  Modelled from the spec: \<open>IntervalTimer\<close> is declared outside this file. It accumulates
  the elapsed time, which never goes below zero, and has passed when the accumulated time
  has reached the interval.
\<close>

record IntervalTimer =
  interval :: int
  current :: int

text \<open>
  Modelled from the spec: \<open>IntervalTimer::Update\<close> adds the elapsed time to the
  accumulated time.
\<close>

definition IntervalTimer_Update :: "int \<Rightarrow> IntervalTimer \<Rightarrow> IntervalTimer" where
  "IntervalTimer_Update diff t =
     (let c = current t + diff in t\<lparr>current := (if c < 0 then 0 else c)\<rparr>)"

text \<open>
  Modelled from the spec: \<open>IntervalTimer::Passed\<close> holds when the accumulated time has
  reached the interval.
\<close>

definition Passed :: "IntervalTimer \<Rightarrow> bool" where
  "Passed t \<longleftrightarrow> interval t \<le> current t"

text \<open>
Modelled from the spec: \<open>IntervalTimer::SetCurrent\<close> sets the accumulated time.
\<close>

definition SetCurrent :: "int \<Rightarrow> IntervalTimer \<Rightarrow> IntervalTimer" where
  "SetCurrent c t = t\<lparr>current := c\<rparr>"

text \<open>
  The calls \<open>Map::Update(t_diff)\<close> and \<open>Map::DelayedUpdate(t_diff)\<close> on a map object are
  recorded as events.
\<close>

datatype update_event = Primary addr u32 | Delayed addr u32

text \<open>
  An order that is not fixed by the program is given by a list of choices: each choice
  takes the next element from those that are left (the choice is taken modulo their
  number), and when the choices are used up the rest follows in the order of the list.
  Whatever the choices are, the result lists every element of the list once, and every
  order of the elements is the result of some choices (\<open>mset_arrange\<close> and
  \<open>arrange_any_order\<close> below).
\<close>

primrec arrange :: "nat list \<Rightarrow> 'a list \<Rightarrow> 'a list" where
  "arrange [] xs = xs"
| "arrange (c # cs) xs =
     (if xs = [] then []
      else let i = c mod length xs in xs ! i # arrange cs (take i xs @ drop (Suc i) xs))"

text \<open>
  Modelled from the spec: \<open>MapUpdater\<close> is declared outside this file. When it is
  activated, every scheduled request is one unit of work for its worker threads, with no
  ordering guarantee between the maps; \<open>worker_choices\<close> are the choices that decide in
  which order the workers carry the requests out.
\<close>

record MapUpdater =
  activated :: bool
  worker_choices :: "nat list"

text \<open>
  Modelled from the spec: \<open>MapUpdater::schedule_update\<close> and \<open>MapUpdater::wait\<close> are declared
  outside this file. The barrier returns when no scheduled work is outstanding: every
  request that was scheduled has then been carried out once. The result is the list of the
  requests in the order in which they were carried out.
\<close>

definition MapUpdater_wait :: "MapUpdater \<Rightarrow> update_event list \<Rightarrow> update_event list" where
  "MapUpdater_wait u requests = arrange (worker_choices u) requests"

text \<open>
  The members of the manager that \<open>Update\<close> works on, and the trace of the updates
  delivered so far. \<open>iteration_choices\<close> are the choices that decide in which order the
  container of the registry is iterated.
\<close>

record Scheduler =
  i_timer :: IntervalTimer
  m_updater :: MapUpdater
  iteration_choices :: "nat list"
  delivered :: "update_event list"

text \<open>
  Modelled from the spec: the type \<open>MapMapType\<close> of \<open>i_maps\<close> is declared outside this
  file, and the spec speaks of the registry-iteration order without fixing it. The
  iteration from \<open>i_maps.begin()\<close> to \<open>i_maps.end()\<close> visits every entry once, in an order
  that is the container's own and that is the same for the two loops of a pass, between
  which the registry is not changed.
\<close>

definition registry_iteration :: "Scheduler \<Rightarrow> MapManager \<Rightarrow> (u32 \<times> addr) list" where
  "registry_iteration s m = arrange (iteration_choices s) (i_maps m)"

definition Update :: "MapManager \<Rightarrow> u32 \<Rightarrow> Scheduler \<Rightarrow> Scheduler" where
  "Update m diff s =
     (let t = IntervalTimer_Update (uint diff) (i_timer s) in
      if \<not> Passed t then s\<lparr>i_timer := t\<rparr>
      else
        let d = (word_of_int (current t) :: u32);
            entries = registry_iteration s m;
            requests = map (\<lambda>(mapid, mp). Primary mp d) entries;
            primary = (if activated (m_updater s) then MapUpdater_wait (m_updater s) requests
                       else requests);
            delayed = map (\<lambda>(mapid, mp). Delayed mp d) entries
        in s\<lparr>delivered := delivered s @ primary @ delayed, i_timer := SetCurrent 0 t\<rparr>)"

section \<open>Notions used in the statements\<close>

subsection \<open>The corpse chain\<close>

text \<open>
  The chain that starts at the corpse's map and steps from a map to the parent of its
  instance template; a parent of 0 is no parent.
\<close>

inductive in_corpse_chain :: "(u32 \<Rightarrow> InstanceTemplate option) \<Rightarrow> u32 \<Rightarrow> u32 \<Rightarrow> bool"
  for tmpl :: "u32 \<Rightarrow> InstanceTemplate option" where
  start: "in_corpse_chain tmpl c c"
| step: "tmpl c = Some t \<Longrightarrow> Parent t \<noteq> 0 \<Longrightarrow> in_corpse_chain tmpl (Parent t) m \<Longrightarrow>
         in_corpse_chain tmpl c m"

text \<open>
The chain reaches a map without an instance template or without a parent.
\<close>

inductive corpse_chain_ends :: "(u32 \<Rightarrow> InstanceTemplate option) \<Rightarrow> u32 \<Rightarrow> bool"
  for tmpl :: "u32 \<Rightarrow> InstanceTemplate option" where
  no_template: "tmpl c = None \<Longrightarrow> corpse_chain_ends tmpl c"
| no_parent: "tmpl c = Some t \<Longrightarrow> Parent t = 0 \<Longrightarrow> corpse_chain_ends tmpl c"
| step: "tmpl c = Some t \<Longrightarrow> Parent t \<noteq> 0 \<Longrightarrow> corpse_chain_ends tmpl (Parent t) \<Longrightarrow>
         corpse_chain_ends tmpl c"

text \<open>
The rules before the corpse rule let the evaluation through.
\<close>

definition reaches_corpse_rule :: "World \<Rightarrow> u32 \<Rightarrow> Player \<Rightarrow> MapEntry \<Rightarrow> bool" where
  "reaches_corpse_rule w mapid player entry \<longleftrightarrow>
     LookupEntry w mapid = Some entry \<and> IsDungeon entry \<and>
     GetInstanceTemplate w mapid \<noteq> None \<and>
     (\<exists>d. GetDownscaledMapDifficultyData w mapid (GetDifficultyID player entry) = Some d \<and>
          Satisfy player (GetAccessRequirement w mapid d) mapid True) \<and>
     \<not> IsGameMaster player \<and> \<not> raid_group_missing w entry player"

subsection \<open>The children of a map\<close>

text \<open>
\<open>x\<close> is reached from \<open>mapid\<close> by \<open>k\<close> steps to a child.
\<close>

fun descends :: "World \<Rightarrow> nat \<Rightarrow> u32 \<Rightarrow> u32 \<Rightarrow> bool" where
  "descends w 0 mapid x \<longleftrightarrow> x = mapid"
| "descends w (Suc k) mapid x \<longleftrightarrow> (\<exists>c\<in>set (parentMapData w mapid). descends w k c x)"

text \<open>
With depth bound \<open>n\<close> the creation of the map returns from some state.
\<close>

definition creates :: "World \<Rightarrow> nat \<Rightarrow> u32 \<Rightarrow> bool" where
  "creates w n mapid \<longleftrightarrow>
     (\<exists>e m r. LookupEntry w mapid = Some e \<and> CreateBaseMap_i w n e m = Some (Inr r))"

text \<open>
The manager after the new object is allocated and registered, before its children.
\<close>

definition installed :: "MapEntry \<Rightarrow> MapManager \<Rightarrow> MapManager" where
  "installed mapEntry m =
     (let mp = length (objects m);
          m1 = m\<lparr>objects := objects m @ [new_Map mapEntry]\<rparr>;
          m2 = DiscoverGridMapFiles mp m1
      in m2\<lparr>i_maps := AList.update (ID mapEntry) mp (i_maps m2)\<rparr>)"

definition loaded :: "MapEntry \<Rightarrow> addr \<Rightarrow> MapManager \<Rightarrow> MapManager" where
  "loaded mapEntry mp m =
     (if \<not> Instanceable mapEntry then LoadCorpseData mp (LoadRespawnTimes mp m) else m)"

text \<open>
The parent that the map store declares for a map id, if the map exists and has one.
\<close>

definition par :: "World \<Rightarrow> u32 \<Rightarrow> u32 option" where
  "par w mapid = (case LookupEntry w mapid of None \<Rightarrow> None | Some e \<Rightarrow> parent_of e)"

text \<open>
  The child lists agree with the map store: the children listed for a map are exactly
  the maps that declare it as their (real or cosmetic) parent, each listed once.
\<close>

definition consistent :: "World \<Rightarrow> bool" where
  "consistent w \<longleftrightarrow>
     (\<forall>q c. c \<in> set (parentMapData w q) \<longleftrightarrow> par w c = Some q) \<and>
     (\<forall>q. distinct (parentMapData w q))"

text \<open>
The maps reached from a map by steps to a child, the map itself included.
\<close>

definition subtree :: "World \<Rightarrow> u32 \<Rightarrow> u32 set" where
  "subtree w mapid = {x. \<exists>k. descends w k mapid x}"

text \<open>
The child terrain maps of the object at an address.
\<close>

definition kids :: "MapManager \<Rightarrow> addr \<Rightarrow> addr list" where
  "kids m i = childTerrainMaps (objects m ! i)"

text \<open>
How often an address occurs among the child terrain maps of all objects.
\<close>

definition attachments :: "MapManager \<Rightarrow> addr \<Rightarrow> nat" where
  "attachments m d = sum_list (map (\<lambda>obj. count_list (childTerrainMaps obj) d) (objects m))"

text \<open>
  The registry and its objects fit the declared hierarchy: registered addresses and
  attached children are objects of the heap; with a map its declared parent is
  registered; the registered object of every listed child is among the child terrain
  maps of the registered object of its parent; the registered object of a map with a
  parent is attached exactly once.
\<close>

definition registry_inv :: "World \<Rightarrow> MapManager \<Rightarrow> bool" where
  "registry_inv w m \<longleftrightarrow>
     (\<forall>x a. FindBaseMap m x = Some a \<longrightarrow> a < length (objects m)) \<and>
     (\<forall>obj\<in>set (objects m). \<forall>c\<in>set (childTerrainMaps obj). c < length (objects m)) \<and>
     (\<forall>x q. FindBaseMap m x \<noteq> None \<and> par w x = Some q \<longrightarrow> FindBaseMap m q \<noteq> None) \<and>
     (\<forall>q p c. FindBaseMap m q = Some p \<and> c \<in> set (parentMapData w q) \<longrightarrow>
        (\<exists>d. FindBaseMap m c = Some d \<and> d \<in> set (childTerrainMaps (objects m ! p)))) \<and>
     (\<forall>x a. FindBaseMap m x = Some a \<and> par w x \<noteq> None \<longrightarrow> attachments m a = 1)"

text \<open>
  What one call of \<open>CreateBaseMap_i\<close> does to the heap and registry, whatever the data:
  it allocates the returned address and further ones above it, leaves the older objects
  alone, attaches every further new address exactly once, to a new object with a lower
  address, and changes registry entries only to new addresses.
\<close>

definition created_below :: "MapManager \<Rightarrow> addr \<Rightarrow> MapManager \<Rightarrow> bool" where
  "created_below m a m1 \<longleftrightarrow>
     a = length (objects m) \<and> a < length (objects m1) \<and>
     (\<forall>i<a. objects m1 ! i = objects m ! i) \<and>
     (\<forall>i. a \<le> i \<and> i < length (objects m1) \<longrightarrow>
        (\<forall>c\<in>set (kids m1 i). i < c \<and> c < length (objects m1))) \<and>
     (\<forall>y. attachments m1 y =
        attachments m y + (if a < y \<and> y < length (objects m1) then 1 else 0)) \<and>
     (\<forall>x. FindBaseMap m1 x \<noteq> FindBaseMap m x \<longrightarrow>
        (\<exists>b. FindBaseMap m1 x = Some b \<and> a \<le> b \<and> b < length (objects m1)))"

text \<open>
The same for the loop over the children of the object at \<open>a\<close>.
\<close>

definition children_added :: "MapManager \<Rightarrow> addr \<Rightarrow> MapManager \<Rightarrow> bool" where
  "children_added m a m' \<longleftrightarrow>
     length (objects m) \<le> length (objects m') \<and>
     (\<forall>i<length (objects m). i \<noteq> a \<longrightarrow> objects m' ! i = objects m ! i) \<and>
     (\<exists>chs. kids m' a = kids m a @ chs \<and>
        (\<forall>c\<in>set chs. length (objects m) \<le> c \<and> c < length (objects m'))) \<and>
     (\<forall>i. length (objects m) \<le> i \<and> i < length (objects m') \<longrightarrow>
        (\<forall>c\<in>set (kids m' i). i < c \<and> c < length (objects m'))) \<and>
     (\<forall>y. attachments m' y =
        attachments m y + (if length (objects m) \<le> y \<and> y < length (objects m') then 1 else 0)) \<and>
     (\<forall>x. FindBaseMap m' x \<noteq> FindBaseMap m x \<longrightarrow>
        (\<exists>b. FindBaseMap m' x = Some b \<and> length (objects m) \<le> b \<and> b < length (objects m')))"

text \<open>
  Every map of the set is registered, and so is each of its listed children, whose
  registered object is among the child terrain maps of the map's registered object.
\<close>

definition attached_within :: "World \<Rightarrow> u32 set \<Rightarrow> MapManager \<Rightarrow> bool" where
  "attached_within w S m \<longleftrightarrow>
     (\<forall>q\<in>S. \<forall>c\<in>set (parentMapData w q).
        \<exists>p d. FindBaseMap m q = Some p \<and> FindBaseMap m c = Some d \<and> d \<in> set (kids m p))"

text \<open>
What a call of \<open>CreateBaseMap_i\<close> for the map \<open>x\<close> has built when it returns.
\<close>

definition subtree_created :: "World \<Rightarrow> u32 \<Rightarrow> addr \<Rightarrow> MapManager \<Rightarrow> bool" where
  "subtree_created w x a m1 \<longleftrightarrow>
     FindBaseMap m1 x = Some a \<and>
     (\<forall>y\<in>subtree w x. \<exists>b. FindBaseMap m1 y = Some b \<and> a \<le> b \<and> b < length (objects m1) \<and>
        (y \<noteq> x \<longrightarrow> a < b)) \<and>
     attached_within w (subtree w x) m1"

text \<open>
  The hierarchy is finite and the parents exist: every listed child has a lower rank
  than its parent, the ranks are bounded, and a declared parent is in the map store.
\<close>

definition ranked :: "World \<Rightarrow> (u32 \<Rightarrow> nat) \<Rightarrow> nat \<Rightarrow> bool" where
  "ranked w h H \<longleftrightarrow>
     (\<forall>q c. c \<in> set (parentMapData w q) \<longrightarrow> h c < h q) \<and> (\<forall>x. h x \<le> H) \<and>
     (\<forall>x p. par w x = Some p \<longrightarrow> LookupEntry w p \<noteq> None)"

subsection \<open>The update pass\<close>

text \<open>
  One primary update, and one delayed update, with the elapsed time \<open>d\<close> for every entry
  of a list of registry entries, in the order of the list.
\<close>

definition primary_pass :: "u32 \<Rightarrow> (u32 \<times> addr) list \<Rightarrow> update_event list" where
  "primary_pass d entries = map (\<lambda>(mapid, mp). Primary mp d) entries"

definition delayed_pass :: "u32 \<Rightarrow> (u32 \<times> addr) list \<Rightarrow> update_event list" where
  "delayed_pass d entries = map (\<lambda>(mapid, mp). Delayed mp d) entries"

text \<open>
  The primary updates of a pass in the order in which they are carried out.
\<close>

definition pass_primaries :: "Scheduler \<Rightarrow> MapManager \<Rightarrow> u32 \<Rightarrow> update_event list" where
  "pass_primaries s m d =
     (if activated (m_updater s)
      then MapUpdater_wait (m_updater s) (primary_pass d (registry_iteration s m))
      else primary_pass d (registry_iteration s m))"

text \<open>
  Every key is registered once, no object is registered under two keys, and the registered
  objects are in the heap. The empty registry is so, and \<open>CreateBaseMap\<close> keeps it so
  (\<open>registry_distinct_empty\<close> and \<open>CreateBaseMap_distinct\<close> below).
\<close>

definition registry_distinct :: "MapManager \<Rightarrow> bool" where
  "registry_distinct m \<longleftrightarrow>
     distinct (map fst (i_maps m)) \<and> distinct (map snd (i_maps m)) \<and>
     (\<forall>a\<in>set (map snd (i_maps m)). a < length (objects m))"

subsection \<open>A run that wraps the cursor\<close>

text \<open>
The number of values of the 32-bit cursor.
\<close>

definition table_limit :: nat where
  "table_limit = 2 ^ 32"

text \<open>
  The allocator after the initialisation with the highest id \<open>0xFFFFFFFE\<close> and the
  registration of the ids 1 to \<open>k\<close>.
\<close>

definition registered_up_to :: "nat \<Rightarrow> allocator" where
  "registered_up_to k =
     \<lparr>nextInstanceId = of_nat (Suc k),
      freeInstanceIds = replicate (Suc k) False @ replicate (table_limit - Suc k) True\<rparr>"

text \<open>
Initialisation, registration of every id from 1 to \<open>0xFFFFFFFF\<close>, one allocation.
\<close>

definition wrapping_run :: "alloc_op list" where
  "wrapping_run =
     Initialize (Some 0xFFFFFFFE) # map (\<lambda>i. Reserve (of_nat i)) [Suc 0..<table_limit] @ [Allocate]"

section \<open>Concrete scenarios\<close>

definition example_entry :: "u32 \<Rightarrow> MapEntry" where
  "example_entry mapid =
     \<lparr>ID = mapid, ParentMapID = - 1, CosmeticParentMapID = - 1, Instanceable = True,
      IsDungeon = True, IsRaid = (mapid = 249), Expansion = 3\<rparr>"

definition example_continent :: "u32 \<Rightarrow> int \<Rightarrow> MapEntry" where
  "example_continent mapid parent =
     \<lparr>ID = mapid, ParentMapID = parent, CosmeticParentMapID = - 1, Instanceable = False,
      IsDungeon = False, IsRaid = False, Expansion = 0\<rparr>"

definition example_world :: World where
  "example_world =
     \<lparr>sMapStore = [example_entry 33, example_entry 0, example_entry 249,
                   example_continent 1 (- 1), example_continent 2 1, example_continent 3 1],
      GetInstanceTemplate =
        (\<lambda>mapid. if mapid = 33 \<or> mapid = 0 \<or> mapid = 249 then Some \<lparr>Parent = 0, ScriptId = 0\<rparr>
                 else if mapid = 34 then Some \<lparr>Parent = 33, ScriptId = 0\<rparr>
                 else if mapid = 5 then Some \<lparr>Parent = 5, ScriptId = 0\<rparr>
                 else None),
      GetDownscaledMapDifficultyData = (\<lambda>mapid d. Some d),
      GetAccessRequirement = (\<lambda>mapid d. None),
      CONFIG_EXPANSION = 2,
      CONFIG_INSTANCE_IGNORE_RAID = False,
      Map_CannotEnter = (\<lambda>a. if a = 1 then CANNOT_ENTER_OTHER 10 else CAN_ENTER),
      parentMapData = (\<lambda>mapid. if mapid = 1 then [2, 3] else []),
      CreateInstanceForPlayer = (\<lambda>a mapid player loginInstanceId m. (None, m))\<rparr>"

definition example_ghost :: "bool \<Rightarrow> u32 \<Rightarrow> Player" where
  "example_ghost corpse corpseMap =
     \<lparr>GetDifficultyID = (\<lambda>e. 1), IsGameMaster = False, Satisfy = (\<lambda>ar mapid report. True),
      GetGroup = None, IsAlive = False, isDead = True, HasCorpse = corpse,
      GetCorpseLocation = corpseMap, GetInstanceSave = (\<lambda>mapid. None),
      CheckInstanceCount = (\<lambda>i. False)\<rparr>"

definition example_game_master :: Player where
  "example_game_master =
     \<lparr>GetDifficultyID = (\<lambda>e. 1), IsGameMaster = True, Satisfy = (\<lambda>ar mapid report. False),
      GetGroup = None, IsAlive = False, isDead = False, HasCorpse = True,
      GetCorpseLocation = 5, GetInstanceSave = (\<lambda>mapid. None),
      CheckInstanceCount = (\<lambda>i. False)\<rparr>"

definition example_object :: "u32 \<Rightarrow> bool \<Rightarrow> (u32 \<times> addr) list \<Rightarrow> MapObj" where
  "example_object mapid inst instances =
     \<lparr>GetId = mapid, obj_Instanceable = inst, childTerrainMaps = [],
      gridMapFilesDiscovered = True, respawnTimesLoaded = \<not> inst, corpseDataLoaded = \<not> inst,
      InstancedMaps = instances\<rparr>"

definition example_manager :: MapManager where
  "example_manager =
     \<lparr>i_maps = [(33, 0), (1, 2)],
      objects = [example_object 33 True [(7, 1)], example_object 33 False [],
                 example_object 1 False []]\<rparr>"

definition example_grouped_ghost :: Player where
  "example_grouped_ghost =
     (example_ghost False 0)
       \<lparr>GetGroup := Some \<lparr>isRaidGroup = False, isLFGGroup = False,
                          GetBoundInstance = (\<lambda>e. Some \<lparr>save = Some 7, perm = False\<rparr>)\<rparr>\<rparr>"

definition empty_manager :: MapManager where
  "empty_manager = \<lparr>i_maps = [], objects = []\<rparr>"

definition example_created :: MapManager where
  "example_created =
     \<lparr>i_maps = [(1, 0), (2, 1), (3, 2)],
      objects =
        [(example_object 1 False [])\<lparr>childTerrainMaps := [1, 2]\<rparr>,
         example_object 2 False [], example_object 3 False []]\<rparr>"

definition example_scheduler :: Scheduler where
  "example_scheduler =
     \<lparr>i_timer = \<lparr>interval = 100, current = 0\<rparr>,
      m_updater = \<lparr>activated = False, worker_choices = []\<rparr>,
      iteration_choices = [2, 1],
      delivered = []\<rparr>"

definition example_pool_scheduler :: Scheduler where
  "example_pool_scheduler =
     example_scheduler\<lparr>m_updater := \<lparr>activated = True, worker_choices = [1]\<rparr>\<rparr>"

definition example_rank :: "u32 \<Rightarrow> nat" where
  "example_rank mapid = (if mapid = 1 then 1 else 0)"

section \<open>Proofs\<close>

subsection \<open>The allocator: proofs\<close>

lemma find_next_Some:
  "find_next bs p = Some j \<longleftrightarrow> (p < j \<and> j < length bs \<and> bs ! j \<and> (\<forall>i. p < i \<and> i < j \<longrightarrow> \<not> bs ! i))"
  unfolding find_next_def find_Some_iff
  apply (rule iffI)
   apply (elim exE conjE)
  subgoal for i
    apply (subgoal_tac "[Suc p..<length bs] ! i = Suc p + i")
    apply (intro conjI)
    apply simp apply simp apply simp
     apply clarsimp
    subgoal for k
      apply (drule spec[of _ "k - Suc p"]) apply simp done
    apply simp
    done
  apply (rule exI[of _ "j - Suc p"])
  apply auto
  done

lemma find_next_None:
  "find_next bs p = None \<longleftrightarrow> (\<forall>i. p < i \<and> i < length bs \<longrightarrow> \<not> bs ! i)"
  unfolding find_next_def find_None_iff
  by auto

lemma unat_max32: "(w :: u32) \<noteq> 0xFFFFFFFF \<Longrightarrow> unat w < 2 ^ 32 - 1"
proof -
  assume a: "w \<noteq> 0xFFFFFFFF"
  have "unat w < 2 ^ 32" using unsigned_less [of w] by simp
  moreover have "unat w \<noteq> 2 ^ 32 - 1"
  proof
    assume "unat w = 2 ^ 32 - 1"
    then have "unat w = unat (0xFFFFFFFF :: u32)" by simp
    then have "w = 0xFFFFFFFF" by (simp only: word_unat_eq_iff)
    with a show False by simp
  qed
  ultimately show ?thesis by simp
qed

lemma unat_of_nat32: "j < 2 ^ 32 \<Longrightarrow> unat (of_nat j :: u32) = j"
  by (simp add: unat_of_nat take_bit_nat_eq_self)

lemma Generate_inv:
  assumes inv: "alloc_inv s" and nmax: "nextInstanceId s \<noteq> 0xFFFFFFFF"
  shows "\<exists>s'. GenerateInstanceId s = Inr (nextInstanceId s, s') \<and> alloc_inv s'
           \<and> unat (nextInstanceId s) < unat (nextInstanceId s')
           \<and> length (freeInstanceIds s) \<le> length (freeInstanceIds s')
           \<and> length (freeInstanceIds s') \<le> Suc (length (freeInstanceIds s))
           \<and> (\<forall>i. length (freeInstanceIds s) \<le> i \<and> i < length (freeInstanceIds s') \<longrightarrow>
                 freeInstanceIds s' ! i)
           \<and> \<not> freeInstanceIds s' ! unat (nextInstanceId s)
           \<and> (\<forall>i<length (freeInstanceIds s). i \<noteq> unat (nextInstanceId s) \<longrightarrow>
                 freeInstanceIds s' ! i = freeInstanceIds s ! i)"
proof -
  define n where "n = unat (nextInstanceId s)"
  define bs where "bs = freeInstanceIds s"
  define m where "m = min (length bs - 1) (2 ^ 32 - 1 :: nat)"
  define bs' where "bs' = bs[n := False]"
  from inv have n0: "0 < n" and nl: "n < length bs" and bn: "bs ! n"
    and low: "\<forall>i<n. \<not> bs ! i" and bm: "bs ! m"
    by (simp_all add: alloc_inv_def Let_def n_def bs_def m_def)
  have nb: "n < 2 ^ 32 - 1" using unat_max32 [OF nmax] by (simp add: n_def)
  have nm: "n \<le> m" using nl nb by (simp add: m_def)
  have ml: "m < length bs" using nl by (simp add: m_def)
  show ?thesis
  proof (cases "find_next bs' n")
    case None
    then have none: "\<forall>i. n < i \<and> i < length bs \<longrightarrow> \<not> bs' ! i"
      by (simp add: find_next_None bs'_def)
    have "m = n"
    proof (rule ccontr)
      assume "m \<noteq> n"
      then have "n < m" using nm by simp
      then have "bs' ! m" using bm ml by (simp add: bs'_def)
      with none \<open>n < m\<close> ml show False by simp
    qed
    then have len: "length bs = Suc n" using nb nl by (simp add: m_def)
    define s' where "s' = \<lparr>nextInstanceId = (of_nat (length bs') :: u32), freeInstanceIds = bs' @ [True]\<rparr>"
    have g: "GenerateInstanceId s = Inr (nextInstanceId s, s')"
      using nmax nl None
      by (simp add: GenerateInstanceId_def Let_def n_def [symmetric] bs_def [symmetric]
            bs'_def [symmetric] s'_def)
    have "unat (of_nat (Suc n) :: u32) = Suc n" using nb by (intro unat_of_nat32) simp
    then have un: "unat (nextInstanceId s') = Suc n"
      by (simp only: s'_def bs'_def len length_list_update allocator.simps)
    have fs: "freeInstanceIds s' = bs' @ [True]" by (simp add: s'_def)
    have lbs': "length bs' = Suc n" by (simp add: bs'_def len)
    have i1: "alloc_inv s'"
      unfolding alloc_inv_def Let_def un fs
      using low nb lbs' by (auto simp: nth_append bs'_def less_Suc_eq)
    have i2: "\<not> freeInstanceIds s' ! n" using nl by (simp add: fs nth_append bs'_def)
    have i3: "\<forall>i<length bs. i \<noteq> n \<longrightarrow> freeInstanceIds s' ! i = bs ! i"
      by (simp add: fs nth_append bs'_def)
    have i4: "\<forall>i. length bs \<le> i \<and> i < length (bs' @ [True]) \<longrightarrow> (bs' @ [True]) ! i"
      by (auto simp: nth_append bs'_def less_Suc_eq)
    from g i1 un i2 i3 i4 show ?thesis
      by (intro exI [of _ s']) (simp add: n_def [symmetric] bs_def [symmetric] fs bs'_def)
  next
    case (Some j)
    then have j: "n < j" "j < length bs" "bs' ! j" "\<forall>i. n < i \<and> i < j \<longrightarrow> \<not> bs' ! i"
      by (simp_all add: find_next_Some bs'_def)
    have "n \<noteq> m"
    proof
      assume "n = m"
      then have "length bs = Suc n" using nb nl by (simp add: m_def)
      with j show False by simp
    qed
    then have nltm: "n < m" using nm by simp
    then have bm': "bs' ! m" using bm ml by (simp add: bs'_def)
    have "j \<le> m"
    proof (rule ccontr)
      assume "\<not> j \<le> m"
      then have "n < m \<and> m < j" using nltm by simp
      with j(4) bm' show False by blast
    qed
    then have jb: "j < 2 ^ 32" by (simp add: m_def)
    define s' where "s' = \<lparr>nextInstanceId = (of_nat j :: u32), freeInstanceIds = bs'\<rparr>"
    have g: "GenerateInstanceId s = Inr (nextInstanceId s, s')"
      using nmax nl Some
      by (simp add: GenerateInstanceId_def Let_def n_def [symmetric] bs_def [symmetric]
            bs'_def [symmetric] s'_def)
    have un: "unat (nextInstanceId s') = j" using jb by (simp add: s'_def unat_of_nat32)
    have fs: "freeInstanceIds s' = bs'" by (simp add: s'_def)
    have lowj: "\<forall>i<j. \<not> bs' ! i"
    proof (intro allI impI)
      fix i assume "i < j"
      consider "i < n" | "i = n" | "n < i" by linarith
      then show "\<not> bs' ! i"
      proof cases
        case 1 then show ?thesis using low nl by (simp add: bs'_def)
      next
        case 2 then show ?thesis using nl by (simp add: bs'_def)
      next
        case 3 then show ?thesis using j(4) \<open>i < j\<close> by simp
      qed
    qed
    have i1: "alloc_inv s'"
      unfolding alloc_inv_def Let_def un fs
      using j lowj bm' by (simp add: bs'_def m_def)
    have i2: "\<not> freeInstanceIds s' ! n" using nl by (simp add: fs bs'_def)
    have i3: "\<forall>i<length bs. i \<noteq> n \<longrightarrow> freeInstanceIds s' ! i = bs ! i"
      by (simp add: fs bs'_def)
    from g i1 un i2 i3 j(1) show ?thesis
      by (intro exI [of _ s']) (auto simp: n_def [symmetric] bs_def [symmetric] fs bs'_def)
  qed
qed

lemma Free_inv:
  assumes inv: "alloc_inv s" and x0: "x \<noteq> 0" and xl: "unat x < length (freeInstanceIds s)"
  shows "\<exists>s'. FreeInstanceId x s = Inr s' \<and> alloc_inv s'
           \<and> length (freeInstanceIds s') = length (freeInstanceIds s)"
proof -
  define n where "n = unat (nextInstanceId s)"
  define bs where "bs = freeInstanceIds s"
  define s' where "s' = \<lparr>nextInstanceId = min x (nextInstanceId s), freeInstanceIds = bs[unat x := True]\<rparr>"
  from inv have n0: "0 < n" and nl: "n < length bs" and bn: "bs ! n"
    and low: "\<forall>i<n. \<not> bs ! i" and bm: "bs ! (min (length bs - 1) (2 ^ 32 - 1))"
    by (simp_all add: alloc_inv_def Let_def n_def bs_def)
  have f: "FreeInstanceId x s = Inr s'" using xl by (simp add: FreeInstanceId_def s'_def bs_def)
  have un: "unat (nextInstanceId s') = min (unat x) n"
    by (simp add: s'_def n_def min_def word_le_nat_alt)
  have x0': "0 < unat x" using x0 by (simp add: unat_gt_0)
  have "alloc_inv s'"
    unfolding alloc_inv_def Let_def un
    using n0 nl bn low bm x0' xl
    by (auto simp: s'_def bs_def [symmetric] nth_list_update min_def)
  with f show ?thesis by (intro exI [of _ s']) (simp add: s'_def bs_def)
qed

lemma replay_inv_alloc_inv:
  assumes "replay_inv b s"
  shows "alloc_inv s"
proof -
  define bs where "bs = freeInstanceIds s"
  define m where "m = min (length bs - 1) (2 ^ 32 - 1 :: nat)"
  from assms have bl: "b < length bs" and bb: "b \<le> 2 ^ 32 - 1"
    and hi: "\<forall>i. b \<le> i \<and> i < length bs \<longrightarrow> bs ! i"
    by (simp_all add: replay_inv_def Let_def bs_def)
  have "b \<le> m" "m < length bs" using bl bb by (simp_all add: m_def)
  then have "bs ! m" using hi by simp
  then show ?thesis using assms
    by (simp add: replay_inv_def alloc_inv_def Let_def bs_def m_def)
qed

lemma Register_replay_inv:
  assumes inv: "replay_inv b s" and bx: "b \<le> unat x"
    and xl: "Suc (unat x) < length (freeInstanceIds s)" and xm: "x \<noteq> 0xFFFFFFFF"
  shows "\<exists>s'. RegisterInstanceId x s = Inr s' \<and> replay_inv (Suc (unat x)) s'
           \<and> length (freeInstanceIds s') = length (freeInstanceIds s)"
proof -
  define n where "n = unat (nextInstanceId s)"
  define bs where "bs = freeInstanceIds s"
  define s' where "s' = \<lparr>nextInstanceId = (if nextInstanceId s = x then nextInstanceId s + 1
                      else nextInstanceId s), freeInstanceIds = bs[unat x := False]\<rparr>"
  from inv have n0: "0 < n" and nb: "n \<le> b" and bl: "b < length bs" and bn: "bs ! n"
    and low: "\<forall>i<n. \<not> bs ! i" and hi: "\<forall>i. b \<le> i \<and> i < length bs \<longrightarrow> bs ! i"
    by (simp_all add: replay_inv_def Let_def n_def bs_def)
  have xb: "unat x < 2 ^ 32 - 1" by (rule unat_max32 [OF xm])
  have r: "RegisterInstanceId x s = Inr s'"
    using xl by (simp add: RegisterInstanceId_def s'_def bs_def Let_def)
  have ux1: "unat (x + 1) = Suc (unat x)"
    using xb by (simp add: unat_word_ariths)
  have eqn: "nextInstanceId s = x \<longleftrightarrow> n = unat x"
    by (simp add: n_def word_unat_eq_iff)
  have un: "unat (nextInstanceId s') = (if n = unat x then Suc n else n)"
  proof (cases "nextInstanceId s = x")
    case True
    then show ?thesis using ux1 eqn by (simp add: s'_def)
  next
    case False
    then show ?thesis using eqn by (simp add: s'_def n_def)
  qed
  have "replay_inv (Suc (unat x)) s'"
    unfolding replay_inv_def Let_def un
    using n0 nb bl bn low hi bx xl xb
    by (auto simp: s'_def bs_def [symmetric] nth_list_update less_Suc_eq)
  with r show ?thesis by (intro exI [of _ s']) (simp add: s'_def bs_def)
qed

lemma replay_ok:
  assumes "replay_inv b s" and "sorted_wrt (<) ids"
    and "\<forall>i\<in>set ids. b \<le> unat i \<and> Suc (unat i) < length (freeInstanceIds s) \<and> i \<noteq> 0xFFFFFFFF"
  shows "\<exists>s' b'. replay ids s = Inr s' \<and> replay_inv b' s'"
  using assms
proof (induction ids arbitrary: b s)
  case Nil
  then show ?case by auto
next
  case (Cons x ids)
  from Cons.prems obtain s1 where r: "RegisterInstanceId x s = Inr s1"
    and i1: "replay_inv (Suc (unat x)) s1"
    and l1: "length (freeInstanceIds s1) = length (freeInstanceIds s)"
    using Register_replay_inv [of b s x] by auto
  have "\<forall>i\<in>set ids. Suc (unat x) \<le> unat i"
    using Cons.prems(2) by (auto simp: word_less_nat_alt)
  then have "\<exists>s' b'. replay ids s1 = Inr s' \<and> replay_inv b' s'"
    using Cons.prems l1 by (intro Cons.IH [OF i1]) auto
  then show ?case using r by simp
qed

lemma Init_fresh:
  assumes "InitInstanceIds r MapManager_alloc = Inr s"
  shows "nextInstanceId s = 1 \<and> (\<exists>n. freeInstanceIds s = False # replicate n True)"
proof -
  define n where "n = (case r of Some maxid \<Rightarrow> unat (maxid + 2) | None \<Rightarrow> unat ((1::u32) + 1))"
  have "resize n True [] = replicate n True" by (simp add: resize_def)
  with assms have "0 < n" and s: "s = \<lparr>nextInstanceId = 1, freeInstanceIds = (replicate n True)[0 := False]\<rparr>"
    by (auto simp: InitInstanceIds_def MapManager_alloc_def Let_def n_def [symmetric] split: if_splits)
  then obtain k where "n = Suc k" by (cases n) auto
  then show ?thesis using s by auto
qed

lemma Init_replay_inv:
  assumes "InitInstanceIds r MapManager_alloc = Inr s" and "2 \<le> length (freeInstanceIds s)"
  shows "replay_inv 1 s"
proof -
  from Init_fresh [OF assms(1)] obtain n where n: "nextInstanceId s = 1"
    "freeInstanceIds s = False # replicate n True" by auto
  with assms(2) show ?thesis
    by (auto simp: replay_inv_def Let_def nth_Cons split: nat.splits)
qed

lemma Generate_Inr_D:
  "GenerateInstanceId s = Inr (x, s') \<Longrightarrow> x = nextInstanceId s \<and> nextInstanceId s \<noteq> 0xFFFFFFFF"
  by (auto simp: GenerateInstanceId_def Let_def split: if_splits option.splits)

lemma reachable_inv:
  "reachable s A \<Longrightarrow>
     alloc_inv s \<and> (\<forall>x\<in>A. x \<noteq> 0 \<and> unat x < length (freeInstanceIds s) \<and> x \<noteq> 0xFFFFFFFF)"
proof (induction rule: reachable.induct)
  case (startup r s0 ids s)
  have "replay_inv 1 s0" using startup(1,2) by (rule Init_replay_inv)
  moreover have "\<forall>i\<in>set ids. 1 \<le> unat i \<and> Suc (unat i) < length (freeInstanceIds s0) \<and> i \<noteq> 0xFFFFFFFF"
    using startup(4) by (auto simp: unat_gt_0 Suc_le_eq)
  ultimately obtain s' b' where "replay ids s0 = Inr s'" "replay_inv b' s'"
    using replay_ok [of 1 s0 ids] startup(3) by blast
  with startup(5) show ?case by (auto dest: replay_inv_alloc_inv)
next
  case (allocate s A x s')
  then have inv: "alloc_inv s" by simp
  from Generate_Inr_D [OF allocate(2)] have x: "x = nextInstanceId s" "nextInstanceId s \<noteq> 0xFFFFFFFF"
    by simp_all
  from Generate_inv [OF inv x(2)] allocate(2) have
    i: "alloc_inv s'" and l: "length (freeInstanceIds s) \<le> length (freeInstanceIds s')"
    by auto
  from inv have "0 < unat x" "unat x < length (freeInstanceIds s)"
    by (simp_all add: alloc_inv_def Let_def x)
  then show ?case using i l allocate.IH x by (auto simp: unat_gt_0)
next
  case (release s A x s')
  then have inv: "alloc_inv s" and xs: "x \<noteq> 0" "unat x < length (freeInstanceIds s)" by auto
  from Free_inv [OF inv xs] release(4) have
    "alloc_inv s'" "length (freeInstanceIds s') = length (freeInstanceIds s)" by auto
  then show ?case using release.IH by auto
qed

lemma allocate_n_increasing:
  "alloc_inv s \<Longrightarrow> allocate_n N s = Inr (ids, s') \<Longrightarrow>
     length ids = N \<and> sorted_wrt (<) ids \<and> (\<forall>x\<in>set ids. nextInstanceId s \<le> x)"
proof (induction N arbitrary: s ids)
  case 0
  then show ?case by simp
next
  case (Suc N)
  from Suc.prems(2) obtain x s1 xs where g: "GenerateInstanceId s = Inr (x, s1)"
    and r: "allocate_n N s1 = Inr (xs, s')" and ids: "ids = x # xs"
    by (auto split: sum.splits prod.splits)
  from Generate_Inr_D [OF g] have x: "x = nextInstanceId s" "nextInstanceId s \<noteq> 0xFFFFFFFF"
    by simp_all
  from Generate_inv [OF Suc.prems(1) x(2)] g have i1: "alloc_inv s1"
    and lt: "nextInstanceId s < nextInstanceId s1" by (auto simp: word_less_nat_alt)
  from Suc.IH [OF i1 r] have "length xs = N" "sorted_wrt (<) xs" "\<forall>y\<in>set xs. nextInstanceId s1 \<le> y"
    by simp_all
  then show ?case using lt x ids by auto
qed

lemma Generate_fresh:
  assumes f: "fresh_inv s" and nmax: "nextInstanceId s \<noteq> 0xFFFFFFFF"
  shows "\<exists>s'. GenerateInstanceId s = Inr (nextInstanceId s, s') \<and> fresh_inv s'
           \<and> unat (nextInstanceId s') = Suc (unat (nextInstanceId s))"
proof -
  from f have inv: "alloc_inv s"
    and hi: "\<forall>i. unat (nextInstanceId s) \<le> i \<and> i < length (freeInstanceIds s) \<longrightarrow> freeInstanceIds s ! i"
    by (simp_all add: fresh_inv_def)
  from Generate_inv [OF inv nmax] obtain s' where
    g: "GenerateInstanceId s = Inr (nextInstanceId s, s')" and i: "alloc_inv s'"
    and lt: "unat (nextInstanceId s) < unat (nextInstanceId s')"
    and l2: "length (freeInstanceIds s') \<le> Suc (length (freeInstanceIds s))"
    and new: "\<forall>i. length (freeInstanceIds s) \<le> i \<and> i < length (freeInstanceIds s') \<longrightarrow> freeInstanceIds s' ! i"
    and same: "\<forall>i<length (freeInstanceIds s). i \<noteq> unat (nextInstanceId s) \<longrightarrow>
                 freeInstanceIds s' ! i = freeInstanceIds s ! i"
    by blast
  define n where "n = unat (nextInstanceId s)"
  define n' where "n' = unat (nextInstanceId s')"
  from i have n'l: "n' < length (freeInstanceIds s')" and low': "\<forall>i<n'. \<not> freeInstanceIds s' ! i"
    by (simp_all add: alloc_inv_def Let_def n'_def)
  from inv have nl: "n < length (freeInstanceIds s)" by (simp add: alloc_inv_def Let_def n_def)
  have "n' = Suc n"
  proof (rule ccontr)
    assume ne: "n' \<noteq> Suc n"
    with lt have gt: "Suc n < n'" by (simp add: n_def n'_def)
    show False
    proof (cases "Suc n < length (freeInstanceIds s)")
      case True
      then have "freeInstanceIds s' ! Suc n" using hi same by (simp add: n_def)
      with low' gt show False by simp
    next
      case False
      with nl l2 n'l gt show False by simp
    qed
  qed
  moreover have "\<forall>i. n' \<le> i \<and> i < length (freeInstanceIds s') \<longrightarrow> freeInstanceIds s' ! i"
  proof (intro allI impI)
    fix i assume a: "n' \<le> i \<and> i < length (freeInstanceIds s')"
    show "freeInstanceIds s' ! i"
    proof (cases "i < length (freeInstanceIds s)")
      case True
      then show ?thesis using a lt hi same by (simp add: n'_def)
    next
      case False
      then show ?thesis using a new by simp
    qed
  qed
  ultimately show ?thesis using g i by (auto simp: fresh_inv_def n_def n'_def)
qed

lemma allocate_n_fresh:
  "fresh_inv s \<Longrightarrow> unat (nextInstanceId s) + N \<le> 2 ^ 32 - 1 \<Longrightarrow>
     \<exists>ids s'. allocate_n N s = Inr (ids, s')"
proof (induction N arbitrary: s)
  case 0
  then show ?case by simp
next
  case (Suc N)
  have "unat (nextInstanceId s) \<noteq> 2 ^ 32 - 1" using Suc.prems(2) by simp
  then have "nextInstanceId s \<noteq> 0xFFFFFFFF" by auto
  from Generate_fresh [OF Suc.prems(1) this] obtain s1 where
    g: "GenerateInstanceId s = Inr (nextInstanceId s, s1)" and f1: "fresh_inv s1"
    and n1: "unat (nextInstanceId s1) = Suc (unat (nextInstanceId s))" by blast
  from Suc.IH [OF f1] Suc.prems(2) n1 obtain ids s' where "allocate_n N s1 = Inr (ids, s')"
    by auto
  with g show ?case by simp
qed

lemma Init_fresh_inv:
  assumes "InitInstanceIds r MapManager_alloc = Inr s" and "2 \<le> length (freeInstanceIds s)"
  shows "fresh_inv s"
proof -
  from Init_fresh [OF assms(1)] obtain n where n: "nextInstanceId s = 1"
    "freeInstanceIds s = False # replicate n True" by auto
  have "alloc_inv s" using Init_replay_inv [OF assms] by (rule replay_inv_alloc_inv)
  then show ?thesis using n by (auto simp: fresh_inv_def nth_Cons split: nat.splits)
qed

lemma reach_ex1:
  "reachable \<lparr>nextInstanceId = 4, freeInstanceIds = [False, False, False, False, True]\<rparr> {3, 1}"
proof -
  have a: "reachable \<lparr>nextInstanceId = 1, freeInstanceIds = [False, True, False, True, True]\<rparr> {}"
    by (rule reachable.startup [where r = "Some 3" and ids = "[2]"
          and ?s0.0 = "\<lparr>nextInstanceId = 1, freeInstanceIds = [False, True, True, True, True]\<rparr>"])
       code_simp+
  have b: "reachable \<lparr>nextInstanceId = 3, freeInstanceIds = [False, False, False, True, True]\<rparr> {1}"
    by (rule reachable.allocate [OF a]) code_simp
  show ?thesis
    using reachable.allocate [OF b, of 3 "\<lparr>nextInstanceId = 4, freeInstanceIds = [False, False, False, False, True]\<rparr>"]
    by (simp add: GenerateInstanceId_def find_next_def Let_def upt_rec)
qed

lemma Init_result:
  "InitInstanceIds r s = Inr s' \<Longrightarrow>
     nextInstanceId s' = 1 \<and> length (freeInstanceIds s') = init_size r"
  by (auto simp: InitInstanceIds_def init_size_def resize_def Let_def
      split: if_splits option.splits)

lemma of_nat32_nonzero: "0 < j \<Longrightarrow> j < 2 ^ 32 \<Longrightarrow> (of_nat j :: u32) \<noteq> 0"
proof
  assume a: "0 < j" "j < 2 ^ 32" and z: "(of_nat j :: u32) = 0"
  from z have "unat (of_nat j :: u32) = 0" by simp
  with a show False by (simp add: unat_of_nat32)
qed

lemma Generate_nonzero:
  assumes n0: "nextInstanceId s \<noteq> 0" and l: "length (freeInstanceIds s) < 2 ^ 32"
    and g: "GenerateInstanceId s = Inr (v, s')"
  shows "v \<noteq> 0 \<and> nextInstanceId s' \<noteq> 0 \<and> length (freeInstanceIds s') \<le> Suc (length (freeInstanceIds s))"
proof -
  define n where "n = unat (nextInstanceId s)"
  define bs where "bs = (freeInstanceIds s)[n := False]"
  from g have v: "v = nextInstanceId s" and nl: "n < length (freeInstanceIds s)"
    by (auto simp: GenerateInstanceId_def Let_def n_def split: if_splits option.splits)
  show ?thesis
  proof (cases "find_next bs n")
    case None
    with g have s': "s' = \<lparr>nextInstanceId = of_nat (length bs), freeInstanceIds = bs @ [True]\<rparr>"
      by (auto simp: GenerateInstanceId_def Let_def n_def bs_def split: if_splits)
    have "(of_nat (length bs) :: u32) \<noteq> 0" using nl l by (intro of_nat32_nonzero) (auto simp: bs_def)
    then show ?thesis using v n0 by (simp add: s' bs_def)
  next
    case (Some j)
    with g have s': "s' = \<lparr>nextInstanceId = of_nat j, freeInstanceIds = bs\<rparr>"
      by (auto simp: GenerateInstanceId_def Let_def n_def bs_def split: if_splits)
    from Some have "n < j" "j < length bs" by (simp_all add: find_next_Some)
    then have "(of_nat j :: u32) \<noteq> 0" using l by (intro of_nat32_nonzero) (auto simp: bs_def)
    then show ?thesis using v n0 by (simp add: s' bs_def)
  qed
qed

lemma Register_nonzero:
  assumes n0: "nextInstanceId s \<noteq> 0" and l: "length (freeInstanceIds s) < 2 ^ 32"
    and g: "RegisterInstanceId i s = Inr s'"
  shows "nextInstanceId s' \<noteq> 0 \<and> length (freeInstanceIds s') = length (freeInstanceIds s)"
proof -
  from g have il: "unat i < length (freeInstanceIds s)"
    and s': "s' = \<lparr>nextInstanceId = (if nextInstanceId s = i then nextInstanceId s + 1 else nextInstanceId s),
                   freeInstanceIds = (freeInstanceIds s)[unat i := False]\<rparr>"
    by (auto simp: RegisterInstanceId_def Let_def split: if_splits)
  have "unat (i + 1) = Suc (unat i)" using il l by (simp add: unat_word_ariths)
  then have "i + 1 \<noteq> 0" by auto
  then show ?thesis using n0 by (auto simp: s')
qed

lemma Free_nonzero:
  assumes n0: "nextInstanceId s \<noteq> 0" and i0: "i \<noteq> 0" and g: "FreeInstanceId i s = Inr s'"
  shows "nextInstanceId s' \<noteq> 0 \<and> length (freeInstanceIds s') = length (freeInstanceIds s)"
  using assms by (auto simp: FreeInstanceId_def min_def split: if_splits)

lemma Generate_Inl_D:
  "GenerateInstanceId s = Inl (InstanceIdOverflow v) \<Longrightarrow> v = 0xFFFFFFFF"
  by (auto simp: GenerateInstanceId_def Let_def split: if_splits option.splits)

lemma allocations_nonzero:
  "nextInstanceId s \<noteq> 0 \<Longrightarrow> length (freeInstanceIds s) + length ops < 2 ^ 32 \<Longrightarrow>
   Release 0 \<notin> set ops \<Longrightarrow>
   \<forall>r. Initialize r \<in> set ops \<longrightarrow> init_size r + length ops < 2 ^ 32 \<Longrightarrow>
   0 \<notin> set (allocations ops s)"
proof (induction ops arbitrary: s)
  case Nil
  then show ?case by simp
next
  case (Cons a ops)
  have rest: "Release 0 \<notin> set ops"
    "\<forall>r. Initialize r \<in> set ops \<longrightarrow> init_size r + length ops < 2 ^ 32"
    using Cons.prems(3,4) by auto
  show ?case
  proof (cases a)
    case (Initialize r)
    show ?thesis
    proof (cases "InitInstanceIds r s")
      case (Inl e)
      then show ?thesis using Initialize by simp
    next
      case (Inr s')
      from Init_result [OF Inr] Cons.prems(4) Initialize
      have "nextInstanceId s' \<noteq> 0" "length (freeInstanceIds s') + length ops < 2 ^ 32" by auto
      from Cons.IH [OF this rest] show ?thesis using Initialize Inr by simp
    qed
  next
    case (Reserve i)
    show ?thesis
    proof (cases "RegisterInstanceId i s")
      case (Inl e)
      then show ?thesis using Reserve by simp
    next
      case (Inr s')
      from Register_nonzero [OF Cons.prems(1) _ Inr] Cons.prems(2)
      have "nextInstanceId s' \<noteq> 0" "length (freeInstanceIds s') + length ops < 2 ^ 32" by auto
      from Cons.IH [OF this rest] show ?thesis using Reserve Inr by simp
    qed
  next
    case Allocate
    show ?thesis
    proof (cases "GenerateInstanceId s")
      case (Inl e)
      then show ?thesis using Allocate Generate_Inl_D [of s] by (cases e) auto
    next
      case (Inr p)
      obtain v s' where p: "p = (v, s')" by (cases p)
      from Generate_nonzero [OF Cons.prems(1) _ Inr [unfolded p]] Cons.prems(2)
      have v: "v \<noteq> 0" and "nextInstanceId s' \<noteq> 0" "length (freeInstanceIds s') + length ops < 2 ^ 32"
        by auto
      from Cons.IH [OF this(2,3) rest] show ?thesis using Allocate Inr p v by simp
    qed
  next
    case (Release i)
    show ?thesis
    proof (cases "FreeInstanceId i s")
      case (Inl e)
      then show ?thesis using Release by simp
    next
      case (Inr s')
      from Cons.prems(3) Release have "i \<noteq> 0" by auto
      from Free_nonzero [OF Cons.prems(1) this Inr] Cons.prems(2)
      have "nextInstanceId s' \<noteq> 0" "length (freeInstanceIds s') + length ops < 2 ^ 32" by auto
      from Cons.IH [OF this rest] show ?thesis using Release Inr by simp
    qed
  qed
qed

text \<open>
  Claim C6. From the initialised allocator, \<open>N\<close> successive calls of \<open>GenerateInstanceId\<close>
  return (for every \<open>N\<close> below the overflow of the 32-bit cursor they do return) \<open>N\<close>
  pairwise distinct nonzero identifiers. In every reachable state, for every identifier
  \<open>x\<close> handed out before, \<open>FreeInstanceId x\<close> succeeds and a following
  \<open>GenerateInstanceId\<close> returns exactly \<open>x\<close>, provided no slot below \<open>x\<close> is free then.
\<close>

theorem allocate_release_round_trip:
  "(InitInstanceIds r MapManager_alloc = Inr s0 \<and> 2 \<le> length (freeInstanceIds s0) \<longrightarrow>
      (N < 2 ^ 32 - 1 \<longrightarrow> (\<exists>ids s'. allocate_n N s0 = Inr (ids, s'))) \<and>
      (\<forall>ids s'. allocate_n N s0 = Inr (ids, s') \<longrightarrow>
         length ids = N \<and> distinct ids \<and> 0 \<notin> set ids)) \<and>
   (reachable s A \<and> x \<in> A \<longrightarrow>
      (\<exists>s1. FreeInstanceId x s = Inr s1 \<and>
         ((\<forall>i<unat x. \<not> freeInstanceIds s1 ! i) \<longrightarrow>
            (\<exists>s2. GenerateInstanceId s1 = Inr (x, s2)))))"
proof (intro conjI impI)
  assume a: "InitInstanceIds r MapManager_alloc = Inr s0 \<and> 2 \<le> length (freeInstanceIds s0)"
  then have f: "fresh_inv s0" by (auto intro: Init_fresh_inv)
  from a have n1: "nextInstanceId s0 = 1" using Init_fresh by blast
  {
    assume "N < 2 ^ 32 - 1"
    then have "unat (nextInstanceId s0) + N \<le> 2 ^ 32 - 1" by (simp add: n1)
    from allocate_n_fresh [OF f this] show "\<exists>ids s'. allocate_n N s0 = Inr (ids, s')" .
  }
  show "\<forall>ids s'. allocate_n N s0 = Inr (ids, s') \<longrightarrow> length ids = N \<and> distinct ids \<and> 0 \<notin> set ids"
  proof (intro allI impI)
    fix ids s' assume r: "allocate_n N s0 = Inr (ids, s')"
    from f have "alloc_inv s0" by (simp add: fresh_inv_def)
    from allocate_n_increasing [OF this r] have l: "length ids = N" and s: "sorted_wrt (<) ids"
      and ge: "\<forall>x\<in>set ids. nextInstanceId s0 \<le> x" by simp_all
    have "distinct ids" using s by (simp add: strict_sorted_iff)
    moreover have "0 \<notin> set ids"
    proof
      assume "0 \<in> set ids"
      with ge have "nextInstanceId s0 \<le> 0" by blast
      with n1 show False by simp
    qed
    ultimately show "length ids = N \<and> distinct ids \<and> 0 \<notin> set ids" using l by simp
  qed
next
  assume a: "reachable s A \<and> x \<in> A"
  with reachable_inv [of s A] have inv: "alloc_inv s" and x0: "x \<noteq> 0"
    and xl: "unat x < length (freeInstanceIds s)" and xm: "x \<noteq> 0xFFFFFFFF" by auto
  from Free_inv [OF inv x0 xl] obtain s1 where fr: "FreeInstanceId x s = Inr s1"
    and i1: "alloc_inv s1" by blast
  have n1: "nextInstanceId s1 = min x (nextInstanceId s)"
    using fr by (auto simp: FreeInstanceId_def split: if_splits)
  have "\<exists>s2. GenerateInstanceId s1 = Inr (x, s2)" if low: "\<forall>i<unat x. \<not> freeInstanceIds s1 ! i"
  proof -
    from i1 have "freeInstanceIds s1 ! unat (nextInstanceId s1)" by (simp add: alloc_inv_def Let_def)
    with low have "\<not> unat (nextInstanceId s1) < unat x" by blast
    then have "\<not> nextInstanceId s1 < x" by (simp add: word_less_nat_alt)
    with n1 have e: "nextInstanceId s1 = x" by (simp add: min_def split: if_splits)
    from Generate_inv [OF i1] xm e show ?thesis by auto
  qed
  with fr show "\<exists>s1. FreeInstanceId x s = Inr s1 \<and>
         ((\<forall>i<unat x. \<not> freeInstanceIds s1 ! i) \<longrightarrow>
            (\<exists>s2. GenerateInstanceId s1 = Inr (x, s2)))" by blast
qed

text \<open>Claim C6, witness: a table of five slots after one registration and two allocations.\<close>

theorem allocate_release_round_trip_witness:
  "InitInstanceIds (Some 3) MapManager_alloc = Inr \<lparr>nextInstanceId = 1, freeInstanceIds = [False, True, True, True, True]\<rparr> \<and>
   (\<exists>ids s'. allocate_n 6 \<lparr>nextInstanceId = 1, freeInstanceIds = [False, True, True, True, True]\<rparr> = Inr (ids, s')
       \<and> length ids = 6 \<and> distinct ids \<and> 0 \<notin> set ids) \<and>
   reachable \<lparr>nextInstanceId = 4, freeInstanceIds = [False, False, False, False, True]\<rparr> {3, 1} \<and>
   (\<exists>s1. FreeInstanceId 1 \<lparr>nextInstanceId = 4, freeInstanceIds = [False, False, False, False, True]\<rparr> = Inr s1 \<and>
      (\<forall>i<unat (1 :: u32). \<not> freeInstanceIds s1 ! i) \<and> (\<exists>s2. GenerateInstanceId s1 = Inr (1, s2)))"
proof -
  let ?init = "\<lparr>nextInstanceId = 1, freeInstanceIds = [False, True, True, True, True]\<rparr>"
  let ?cur = "\<lparr>nextInstanceId = 4, freeInstanceIds = [False, False, False, False, True]\<rparr>"
  let ?rel = "\<lparr>nextInstanceId = 1, freeInstanceIds = [False, True, False, False, True]\<rparr>"
  have i: "InitInstanceIds (Some 3) MapManager_alloc = Inr ?init" by code_simp
  have l: "2 \<le> length (freeInstanceIds ?init)" by simp
  have n: "(6 :: nat) < 2 ^ 32 - 1" by simp
  have f: "FreeInstanceId 1 ?cur = Inr ?rel" by code_simp
  have low: "\<forall>i<unat (1 :: u32). \<not> freeInstanceIds ?rel ! i" by simp
  note t = allocate_release_round_trip [of "Some 3" ?init 6 ?cur "{3, 1}" 1]
  from t i l n have a: "\<exists>ids s'. allocate_n 6 ?init = Inr (ids, s')
       \<and> length ids = 6 \<and> distinct ids \<and> 0 \<notin> set ids" by blast
  from t reach_ex1 f low have b: "\<exists>s2. GenerateInstanceId ?rel = Inr (1, s2)" by auto
  from i a reach_ex1 f low b show ?thesis by blast
qed

text \<open>
  Claim C10. In every reachable state the cursor is a valid index of the table, its slot is
  free, it is the least free index, and the next \<open>GenerateInstanceId\<close> (which returns
  unless the cursor is at the 32-bit maximum) hands back that least free index.
\<close>

theorem cursor_is_least_free:
  assumes "reachable s A"
  shows "unat (nextInstanceId s) < length (freeInstanceIds s) \<and>
         freeInstanceIds s ! unat (nextInstanceId s) \<and>
         unat (nextInstanceId s) = (LEAST i. i < length (freeInstanceIds s) \<and> freeInstanceIds s ! i) \<and>
         (\<forall>x s'. GenerateInstanceId s = Inr (x, s') \<longrightarrow>
            unat x = (LEAST i. i < length (freeInstanceIds s) \<and> freeInstanceIds s ! i)) \<and>
         (nextInstanceId s \<noteq> 0xFFFFFFFF \<longrightarrow> (\<exists>x s'. GenerateInstanceId s = Inr (x, s')))"
proof -
  define n where "n = unat (nextInstanceId s)"
  define bs where "bs = freeInstanceIds s"
  from reachable_inv [OF assms] have inv: "alloc_inv s" by simp
  then have nl: "n < length bs" and bn: "bs ! n" and low: "\<forall>i<n. \<not> bs ! i"
    by (simp_all add: alloc_inv_def Let_def n_def bs_def)
  have least: "(LEAST i. i < length bs \<and> bs ! i) = n"
  proof (rule Least_equality)
    show "n < length bs \<and> bs ! n" using nl bn by simp
  next
    fix y assume "y < length bs \<and> bs ! y"
    with low show "n \<le> y" by (meson not_less)
  qed
  have g1: "\<forall>x s'. GenerateInstanceId s = Inr (x, s') \<longrightarrow> unat x = n"
    using Generate_Inr_D by (auto simp: n_def)
  have g2: "nextInstanceId s \<noteq> 0xFFFFFFFF \<longrightarrow> (\<exists>x s'. GenerateInstanceId s = Inr (x, s'))"
    using Generate_inv [OF inv] by blast
  from nl bn least g1 g2 show ?thesis
    by (simp add: n_def [symmetric] bs_def [symmetric])
qed

text \<open>Claim C10, witness: the same state; the least free slot is 4 and is handed out next.\<close>

theorem cursor_is_least_free_witness:
  "reachable \<lparr>nextInstanceId = 4, freeInstanceIds = [False, False, False, False, True]\<rparr> {3, 1} \<and>
   GenerateInstanceId \<lparr>nextInstanceId = 4, freeInstanceIds = [False, False, False, False, True]\<rparr> =
     Inr (4, \<lparr>nextInstanceId = 5, freeInstanceIds = [False, False, False, False, False, True]\<rparr>) \<and>
   (LEAST i. i < length [False, False, False, False, True] \<and> [False, False, False, False, True] ! i) = 4"
proof -
  let ?s = "\<lparr>nextInstanceId = 4, freeInstanceIds = [False, False, False, False, True]\<rparr>"
  have g: "GenerateInstanceId ?s =
     Inr (4, \<lparr>nextInstanceId = 5, freeInstanceIds = [False, False, False, False, False, True]\<rparr>)" by code_simp
  from cursor_is_least_free [OF reach_ex1]
  have "unat (nextInstanceId ?s) = (LEAST i. i < length (freeInstanceIds ?s) \<and> freeInstanceIds ?s ! i)"
    by blast
  then have "(LEAST i. i < length [False, False, False, False, True] \<and> [False, False, False, False, True] ! i) = 4"
    by simp
  with reach_ex1 g show ?thesis by blast
qed

text \<open>
  Claim C7 as stated (any operation with any argument) fails: \<open>FreeInstanceId 0\<close> lowers the
  cursor to 0 and frees slot 0, and the next \<open>GenerateInstanceId\<close> hands back 0.
\<close>

theorem allocate_returns_zero_after_release_zero:
  "0 \<in> set (allocations [Initialize (Some 3), Release 0, Allocate] MapManager_alloc)"
  by code_simp

text \<open>
  Claim C7, amended. After an initialisation, in every sequence of operations that never
  releases the identifier 0 and whose table stays below \<open>2 ^ 32\<close> slots (every table size
  set by an initialisation plus the number of operations is below \<open>2 ^ 32\<close>), no call of
  \<open>GenerateInstanceId\<close> hands back 0.
\<close>

theorem allocate_never_zero:
  assumes "InitInstanceIds r s = Inr s0"
    and "Release 0 \<notin> set ops"
    and "\<forall>r'. Initialize r' \<in> set (Initialize r # ops) \<longrightarrow> init_size r' + length ops < 2 ^ 32"
  shows "0 \<notin> set (allocations ops s0)"
proof -
  from Init_result [OF assms(1)] assms(3)
  have "nextInstanceId s0 \<noteq> 0" "length (freeInstanceIds s0) + length ops < 2 ^ 32" by auto
  then show ?thesis using assms(2,3) by (intro allocations_nonzero) auto
qed

text \<open>Claim C7, amended, witness: a run with all four operations that hands back 2, 3 and 1.\<close>

theorem allocate_never_zero_witness:
  "InitInstanceIds (Some 3) MapManager_alloc =
     Inr \<lparr>nextInstanceId = 1, freeInstanceIds = [False, True, True, True, True]\<rparr> \<and>
   allocations [Reserve 1, Allocate, Allocate, Release 2, Initialize None, Allocate]
     \<lparr>nextInstanceId = 1, freeInstanceIds = [False, True, True, True, True]\<rparr> = [2, 3, 1] \<and>
   0 \<notin> set (allocations [Reserve 1, Allocate, Allocate, Release 2, Initialize None, Allocate]
     \<lparr>nextInstanceId = 1, freeInstanceIds = [False, True, True, True, True]\<rparr>)"
proof -
  let ?init = "\<lparr>nextInstanceId = 1, freeInstanceIds = [False, True, True, True, True]\<rparr>"
  let ?ops = "[Reserve 1, Allocate, Allocate, Release 2, Initialize None, Allocate]"
  have i: "InitInstanceIds (Some 3) MapManager_alloc = Inr ?init" by code_simp
  have r: "Release 0 \<notin> set ?ops" by simp
  have b: "\<forall>r'. Initialize r' \<in> set (Initialize (Some 3) # ?ops) \<longrightarrow> init_size r' + length ?ops < 2 ^ 32"
    by (simp add: init_size_def)
  have v: "allocations ?ops ?init = [2, 3, 1]" by code_simp
  from allocate_never_zero [OF i r b] i v show ?thesis by blast
qed

subsection \<open>Admission: proofs\<close>

lemmas example_defs = example_world_def example_entry_def example_continent_def example_ghost_def
  example_game_master_def empty_manager_def example_manager_def example_object_def
  example_grouped_ghost_def

lemma corpse_walk_found:
  "in_corpse_chain tmpl c m \<Longrightarrow> corpse_walk tmpl m c = Some m"
proof (induction rule: in_corpse_chain.induct)
  case (start c)
  show ?case by (subst corpse_walk.simps) simp
next
  case (step c t m)
  then show ?case by (subst corpse_walk.simps) simp
qed

lemma corpse_walk_not_found:
  "corpse_chain_ends tmpl c \<Longrightarrow> \<not> in_corpse_chain tmpl c m \<Longrightarrow> corpse_walk tmpl m c = Some 0"
proof (induction rule: corpse_chain_ends.induct)
  case (no_template c)
  then have "c \<noteq> m" using in_corpse_chain.start by auto
  then show ?case using no_template by (subst corpse_walk.simps) simp
next
  case (no_parent c t)
  then have "c \<noteq> m" using in_corpse_chain.start by auto
  then show ?case using no_parent by (subst corpse_walk.simps) simp
next
  case (step c t)
  then have "c \<noteq> m" using in_corpse_chain.start by auto
  moreover have "\<not> in_corpse_chain tmpl (Parent t) m"
    using step.prems step.hyps(1,2) in_corpse_chain.step by blast
  ultimately show ?case using step by (subst corpse_walk.simps) simp
qed

lemma corpse_walk_Some:
  assumes "corpse_walk tmpl m c = Some r"
  shows "(r = m \<and> in_corpse_chain tmpl c m) \<or> (r = 0 \<and> corpse_chain_ends tmpl c)"
proof (rule corpse_walk.raw_induct
    [where P = "\<lambda>tmpl m c r. (r = m \<and> in_corpse_chain tmpl c m) \<or> (r = 0 \<and> corpse_chain_ends tmpl c)",
      OF _ assms])
  fix walk tmpl' m' c' r'
  assume IH: "\<And>tm ma co y. walk tm ma co = Some y \<Longrightarrow>
            (y = ma \<and> in_corpse_chain tm co ma) \<or> (y = 0 \<and> corpse_chain_ends tm co)"
    and body: "(if c' = m' then Some c'
        else let corpseMap' = (case tmpl' c' of None \<Rightarrow> 0 | Some corpseInstance \<Rightarrow> Parent corpseInstance)
             in if corpseMap' \<noteq> 0 then walk tmpl' m' corpseMap' else Some corpseMap') = Some r'"
  show "(r' = m' \<and> in_corpse_chain tmpl' c' m') \<or> (r' = 0 \<and> corpse_chain_ends tmpl' c')"
  proof (cases "c' = m'")
    case True
    with body show ?thesis by (auto intro: in_corpse_chain.start)
  next
    case False
    show ?thesis
    proof (cases "tmpl' c'")
      case None
      with False body show ?thesis by (auto intro: corpse_chain_ends.no_template)
    next
      case (Some t)
      show ?thesis
      proof (cases "Parent t = 0")
        case True
        with \<open>c' \<noteq> m'\<close> Some body show ?thesis by (auto intro: corpse_chain_ends.no_parent)
      next
        case False
        with \<open>c' \<noteq> m'\<close> Some body have "walk tmpl' m' (Parent t) = Some r'" by simp
        from IH [OF this] show ?thesis
          using Some False by (auto intro: in_corpse_chain.step corpse_chain_ends.step)
      qed
    qed
  qed
qed

lemma corpse_walk_diverges:
  "\<not> in_corpse_chain tmpl c m \<Longrightarrow> \<not> corpse_chain_ends tmpl c \<Longrightarrow> corpse_walk tmpl m c = None"
  using corpse_walk_Some [of tmpl m c] by (cases "corpse_walk tmpl m c") auto

lemma PlayerCannotEnter_at_corpse_rule:
  assumes "reaches_corpse_rule w mapid player entry"
  shows "PlayerCannotEnter w m mapid player loginCheck =
     (if \<not> IsAlive player \<and> HasCorpse player then
        (case corpse_walk (GetInstanceTemplate w) mapid (GetCorpseLocation player) of
           None \<Rightarrow> None
         | Some corpseMap \<Rightarrow>
             if corpseMap = 0 then Some CANNOT_ENTER_CORPSE_IN_DIFFERENT_INSTANCE
             else Some (after_corpse_rule w m mapid entry player loginCheck))
      else Some (after_corpse_rule w m mapid entry player loginCheck))"
  using assms by (auto simp: reaches_corpse_rule_def PlayerCannotEnter_def)

lemma example_reaches:
  "reaches_corpse_rule example_world 33 (example_ghost corpse c) (example_entry 33)"
  "reaches_corpse_rule example_world 0 (example_ghost corpse c) (example_entry 0)"
  by (simp_all add: reaches_corpse_rule_def LookupEntry_def raid_group_missing_def example_defs)

lemma example_after:
  "after_corpse_rule example_world empty_manager mapid (example_entry mapid) (example_ghost corpse c) False = CAN_ENTER"
  by (simp add: after_corpse_rule_def bound_instance_rule_def instance_count_rule_def example_defs)

lemma example_chain_34: "in_corpse_chain (GetInstanceTemplate example_world) 34 33"
  by (rule in_corpse_chain.step [where t = "\<lparr>Parent = 33, ScriptId = 0\<rparr>"])
     (simp_all add: example_world_def in_corpse_chain.start)

lemma example_chain_7:
  "in_corpse_chain (GetInstanceTemplate example_world) c m \<Longrightarrow> c = 7 \<Longrightarrow> m = 7"
  by (induction rule: in_corpse_chain.induct) (simp_all add: example_world_def)

lemma example_chain_5:
  "in_corpse_chain (GetInstanceTemplate example_world) c m \<Longrightarrow> c = 5 \<Longrightarrow> m = 5"
  by (induction rule: in_corpse_chain.induct) (auto simp: example_world_def split: if_splits)

lemma example_cycle_5:
  "corpse_chain_ends (GetInstanceTemplate example_world) c \<Longrightarrow> c \<noteq> 5"
  by (induction rule: corpse_chain_ends.induct) (auto simp: example_world_def split: if_splits)

lemma example_grouped_reaches:
  "reaches_corpse_rule example_world 33 example_grouped_ghost (example_entry 33)"
  by (simp add: reaches_corpse_rule_def LookupEntry_def raid_group_missing_def example_defs)

text \<open>
  Claim C1 as stated fails for the map id 0, which the loop uses for "no parent": a
  corpse on map 0 and the target 0 leave the loop at once with \<open>corpseMap = 0\<close>, and the
  evaluation denies although the target is the first element of the chain.
\<close>

theorem corpse_rule_denies_although_target_in_chain:
  "reaches_corpse_rule example_world 0 (example_ghost True 0) (example_entry 0) \<and>
   \<not> IsAlive (example_ghost True 0) \<and> HasCorpse (example_ghost True 0) \<and>
   in_corpse_chain (GetInstanceTemplate example_world) (GetCorpseLocation (example_ghost True 0)) 0 \<and>
   PlayerCannotEnter example_world empty_manager 0 (example_ghost True 0) False =
     Some CANNOT_ENTER_CORPSE_IN_DIFFERENT_INSTANCE"
proof -
  have "corpse_walk (GetInstanceTemplate example_world) 0 0 = Some 0"
    by (subst corpse_walk.simps) simp
  then have "PlayerCannotEnter example_world empty_manager 0 (example_ghost True 0) False =
     Some CANNOT_ENTER_CORPSE_IN_DIFFERENT_INSTANCE"
    by (simp add: PlayerCannotEnter_at_corpse_rule [OF example_reaches(2)]) (simp add: example_ghost_def)
  moreover have "in_corpse_chain (GetInstanceTemplate example_world) (GetCorpseLocation (example_ghost True 0)) 0"
    by (simp add: example_ghost_def in_corpse_chain.start)
  ultimately show ?thesis using example_reaches(2) by (simp add: example_ghost_def)
qed

text \<open>
  Claim C1, amended. For an evaluation that reaches the corpse rule, a participant who is
  not alive and has a corpse, and a target id other than 0: if the target occurs in the
  corpse chain, the corpse rule produces no failure and the result is that of the later
  rules; if it does not occur and the chain ends, the result is "corpse in different
  instance"; if it does not occur and the chain does not end (it runs into a cycle), the
  evaluation does not return.
\<close>

theorem corpse_rule_blocks_only_on_mismatch:
  assumes "reaches_corpse_rule w mapid player entry"
    and "\<not> IsAlive player" and "HasCorpse player" and "mapid \<noteq> 0"
  shows "(in_corpse_chain (GetInstanceTemplate w) (GetCorpseLocation player) mapid \<longrightarrow>
            PlayerCannotEnter w m mapid player loginCheck =
              Some (after_corpse_rule w m mapid entry player loginCheck)) \<and>
         (\<not> in_corpse_chain (GetInstanceTemplate w) (GetCorpseLocation player) mapid \<and>
          corpse_chain_ends (GetInstanceTemplate w) (GetCorpseLocation player) \<longrightarrow>
            PlayerCannotEnter w m mapid player loginCheck =
              Some CANNOT_ENTER_CORPSE_IN_DIFFERENT_INSTANCE) \<and>
         (\<not> in_corpse_chain (GetInstanceTemplate w) (GetCorpseLocation player) mapid \<and>
          \<not> corpse_chain_ends (GetInstanceTemplate w) (GetCorpseLocation player) \<longrightarrow>
            PlayerCannotEnter w m mapid player loginCheck = None)"
  using assms(2-4)
  by (simp add: PlayerCannotEnter_at_corpse_rule [OF assms(1)] corpse_walk_found
      corpse_walk_not_found corpse_walk_diverges)

text \<open>
  Claim C1, amended, witness: target 33 with the corpse on map 34 (child of 33), on map 7
  (no template) and on map 5 (its own parent).
\<close>

theorem corpse_rule_blocks_only_on_mismatch_witness:
  "reaches_corpse_rule example_world 33 (example_ghost True 34) (example_entry 33) \<and>
   \<not> IsAlive (example_ghost True 34) \<and> HasCorpse (example_ghost True 34) \<and> (33 :: u32) \<noteq> 0 \<and>
   in_corpse_chain (GetInstanceTemplate example_world) 34 33 \<and>
   PlayerCannotEnter example_world empty_manager 33 (example_ghost True 34) False = Some CAN_ENTER \<and>
   \<not> in_corpse_chain (GetInstanceTemplate example_world) 7 33 \<and>
   corpse_chain_ends (GetInstanceTemplate example_world) 7 \<and>
   PlayerCannotEnter example_world empty_manager 33 (example_ghost True 7) False =
     Some CANNOT_ENTER_CORPSE_IN_DIFFERENT_INSTANCE \<and>
   \<not> in_corpse_chain (GetInstanceTemplate example_world) 5 33 \<and>
   \<not> corpse_chain_ends (GetInstanceTemplate example_world) 5 \<and>
   PlayerCannotEnter example_world empty_manager 33 (example_ghost True 5) False = None"
proof -
  have g: "\<not> IsAlive (example_ghost True c)" "HasCorpse (example_ghost True c)"
    "GetCorpseLocation (example_ghost True c) = c" for c
    by (simp_all add: example_ghost_def)
  have n: "(33 :: u32) \<noteq> 0" by simp
  have e7: "corpse_chain_ends (GetInstanceTemplate example_world) 7"
    by (rule corpse_chain_ends.no_template) (simp add: example_world_def)
  have n7: "\<not> in_corpse_chain (GetInstanceTemplate example_world) 7 33"
    using example_chain_7 by fastforce
  have n5: "\<not> in_corpse_chain (GetInstanceTemplate example_world) 5 33"
    using example_chain_5 by fastforce
  have c5: "\<not> corpse_chain_ends (GetInstanceTemplate example_world) 5"
    using example_cycle_5 by blast
  note t = corpse_rule_blocks_only_on_mismatch [OF example_reaches(1) g(1) g(2) n,
      where m = empty_manager and loginCheck = False, unfolded g(3)]
  from t [of 34] example_chain_34 example_after
  have a: "PlayerCannotEnter example_world empty_manager 33 (example_ghost True 34) False = Some CAN_ENTER"
    by simp
  from t [of 7] n7 e7
  have b: "PlayerCannotEnter example_world empty_manager 33 (example_ghost True 7) False =
     Some CANNOT_ENTER_CORPSE_IN_DIFFERENT_INSTANCE" by simp
  from t [of 5] n5 c5
  have c: "PlayerCannotEnter example_world empty_manager 33 (example_ghost True 5) False = None"
    by simp
  from example_reaches(1) g n example_chain_34 a n7 e7 b n5 c5 c show ?thesis by simp
qed

text \<open>
  Claim C2. For a game master, an existing dungeon definition with an instance template
  and an offered difficulty, the evaluation returns success, whatever the access
  requirement, the group, the corpse, the binding and the instance count are.
\<close>

theorem game_master_bypasses_remaining_rules:
  assumes "LookupEntry w mapid = Some entry" and "IsDungeon entry"
    and "GetInstanceTemplate w mapid \<noteq> None"
    and "GetDownscaledMapDifficultyData w mapid (GetDifficultyID player entry) \<noteq> None"
    and "IsGameMaster player"
  shows "PlayerCannotEnter w m mapid player loginCheck = Some CAN_ENTER"
  using assms by (auto simp: PlayerCannotEnter_def)

text \<open>
  Claim C2, witness: a dead game master without group who does not satisfy the access
  requirement of a raid and whose corpse chain is a cycle.
\<close>

theorem game_master_bypasses_remaining_rules_witness:
  "LookupEntry example_world 249 = Some (example_entry 249) \<and> IsDungeon (example_entry 249) \<and>
   GetInstanceTemplate example_world 249 \<noteq> None \<and>
   GetDownscaledMapDifficultyData example_world 249
     (GetDifficultyID example_game_master (example_entry 249)) \<noteq> None \<and>
   IsGameMaster example_game_master \<and>
   \<not> Satisfy example_game_master (GetAccessRequirement example_world 249 1) 249 True \<and>
   raid_group_missing example_world (example_entry 249) example_game_master \<and>
   \<not> IsAlive example_game_master \<and> HasCorpse example_game_master \<and>
   corpse_walk (GetInstanceTemplate example_world) 249 (GetCorpseLocation example_game_master) = None \<and>
   PlayerCannotEnter example_world example_manager 249 example_game_master False = Some CAN_ENTER"
proof -
  have h: "LookupEntry example_world 249 = Some (example_entry 249)" "IsDungeon (example_entry 249)"
    "GetInstanceTemplate example_world 249 \<noteq> None"
    "GetDownscaledMapDifficultyData example_world 249
       (GetDifficultyID example_game_master (example_entry 249)) \<noteq> None"
    "IsGameMaster example_game_master"
    by (simp_all add: LookupEntry_def example_defs)
  have o: "\<not> Satisfy example_game_master (GetAccessRequirement example_world 249 1) 249 True"
    "raid_group_missing example_world (example_entry 249) example_game_master"
    "\<not> IsAlive example_game_master" "HasCorpse example_game_master"
    by (simp_all add: raid_group_missing_def example_defs)
  have "corpse_walk (GetInstanceTemplate example_world) 249 5 = None"
    using example_chain_5 example_cycle_5 by (intro corpse_walk_diverges) fastforce+
  then have w: "corpse_walk (GetInstanceTemplate example_world) 249
      (GetCorpseLocation example_game_master) = None"
    by (simp add: example_game_master_def)
  from game_master_bypasses_remaining_rules [OF h] h o w show ?thesis by simp
qed

text \<open>
  Claim C3 as stated fails: a dead participant without corpse and without group is
  admitted.
\<close>

theorem dead_without_corpse_is_admitted:
  "reaches_corpse_rule example_world 33 (example_ghost False 0) (example_entry 33) \<and>
   \<not> IsAlive (example_ghost False 0) \<and> isDead (example_ghost False 0) \<and>
   \<not> HasCorpse (example_ghost False 0) \<and>
   PlayerCannotEnter example_world example_manager 33 (example_ghost False 0) False = Some CAN_ENTER"
proof -
  have "after_corpse_rule example_world example_manager 33 (example_entry 33) (example_ghost False 0) False = CAN_ENTER"
    by (simp add: after_corpse_rule_def bound_instance_rule_def instance_count_rule_def example_defs)
  then have "PlayerCannotEnter example_world example_manager 33 (example_ghost False 0) False = Some CAN_ENTER"
    by (simp add: PlayerCannotEnter_at_corpse_rule [OF example_reaches(1)]) (simp add: example_ghost_def)
  then show ?thesis using example_reaches(1) by (simp add: example_ghost_def)
qed

text \<open>
  Claim C3, amended. For a participant who is not alive and has no corpse, an evaluation
  that reaches the corpse rule is not denied by it: the result is that of the later rules.
  If the participant is dead, this is the denial of the instance the group is bound to, if
  there is one, and success otherwise; in particular success without a group or at login.
\<close>

theorem dead_without_corpse_passes_corpse_rule:
  assumes "reaches_corpse_rule w mapid player entry"
    and "\<not> IsAlive player" and "\<not> HasCorpse player"
  shows "PlayerCannotEnter w m mapid player loginCheck =
           Some (after_corpse_rule w m mapid entry player loginCheck) \<and>
         (isDead player \<longrightarrow>
            PlayerCannotEnter w m mapid player loginCheck =
              Some (case bound_instance_rule w m mapid entry player loginCheck of
                      Some denyReason \<Rightarrow> denyReason | None \<Rightarrow> CAN_ENTER)) \<and>
         (isDead player \<and> (loginCheck \<or> GetGroup player = None) \<longrightarrow>
            PlayerCannotEnter w m mapid player loginCheck = Some CAN_ENTER)"
  using assms(2,3)
  by (auto simp: PlayerCannotEnter_at_corpse_rule [OF assms(1)] after_corpse_rule_def
      instance_count_rule_def bound_instance_rule_def Let_def split: option.splits)

text \<open>
  Claim C3, amended, witness: a dead participant without corpse whose group is bound to an
  instance that denies; at login the binding is not consulted.
\<close>

theorem dead_without_corpse_passes_corpse_rule_witness:
  "reaches_corpse_rule example_world 33 example_grouped_ghost (example_entry 33) \<and>
   \<not> IsAlive example_grouped_ghost \<and> \<not> HasCorpse example_grouped_ghost \<and>
   isDead example_grouped_ghost \<and>
   PlayerCannotEnter example_world example_manager 33 example_grouped_ghost False =
     Some (CANNOT_ENTER_OTHER 10) \<and>
   PlayerCannotEnter example_world example_manager 33 example_grouped_ghost True = Some CAN_ENTER"
proof -
  have g: "\<not> IsAlive example_grouped_ghost" "\<not> HasCorpse example_grouped_ghost"
    "isDead example_grouped_ghost"
    by (simp_all add: example_defs)
  have b: "bound_instance_rule example_world example_manager 33 (example_entry 33)
             example_grouped_ghost False = Some (CANNOT_ENTER_OTHER 10)"
    by (simp add: bound_instance_rule_def FindMap_def FindBaseMap_def FindInstanceMap_def example_defs)
  note t = dead_without_corpse_passes_corpse_rule [OF example_grouped_reaches g(1,2),
      where m = example_manager]
  from t [of False] g(3)
  have "PlayerCannotEnter example_world example_manager 33 example_grouped_ghost False =
     Some (case bound_instance_rule example_world example_manager 33 (example_entry 33)
                 example_grouped_ghost False of
             Some denyReason \<Rightarrow> denyReason | None \<Rightarrow> CAN_ENTER)" by blast
  then have x: "PlayerCannotEnter example_world example_manager 33 example_grouped_ghost False =
     Some (CANNOT_ENTER_OTHER 10)" by (simp add: b)
  from t [of True] g(3)
  have y: "PlayerCannotEnter example_world example_manager 33 example_grouped_ghost True = Some CAN_ENTER"
    by blast
  from example_grouped_reaches g x y show ?thesis by simp
qed

subsection \<open>The registry: proofs\<close>

lemma LookupEntry_ID: "LookupEntry w mapid = Some e \<Longrightarrow> ID e = mapid"
  by (auto simp: LookupEntry_def find_Some_iff)

lemma add_children_creates:
  "add_children w n a cs m = Some (Inr m') \<Longrightarrow> c \<in> set cs \<Longrightarrow> creates w n c"
proof (induction cs arbitrary: m)
  case Nil
  then show ?case by simp
next
  case (Cons x cs)
  from Cons.prems(1) obtain e ch m1 where e: "LookupEntry w x = Some e"
    and cr: "CreateBaseMap_i w n e m = Some (Inr (ch, m1))"
    and rest: "add_children w n a cs (AddChildTerrainMap a ch m1) = Some (Inr m')"
    by (auto simp: AssertEntry_def split: option.splits sum.splits prod.splits)
  show ?case
  proof (cases "c = x")
    case True
    then show ?thesis using e cr by (auto simp: creates_def)
  next
    case False
    with Cons.prems(2) have "c \<in> set cs" by simp
    from Cons.IH [OF rest this] show ?thesis .
  qed
qed

lemma creates_child:
  assumes "creates w (Suc n) mapid" and "c \<in> set (parentMapData w mapid)"
  shows "creates w n c"
proof -
  from assms(1) obtain e m r where e: "LookupEntry w mapid = Some e"
    and cr: "CreateBaseMap_i w (Suc n) e m = Some (Inr r)" by (auto simp: creates_def)
  from cr obtain a m0 m' where "add_children w n a (parentMapData w (ID e)) m0 = Some (Inr m')"
    by (auto simp: Let_def split: option.splits sum.splits)
  then show ?thesis using add_children_creates assms(2) LookupEntry_ID [OF e] by blast
qed

lemma creates_0: "\<not> creates w 0 mapid"
  by (simp add: creates_def)

lemma creates_descends:
  "descends w k mapid x \<Longrightarrow> creates w n mapid \<Longrightarrow> k < n \<and> creates w (n - k) x"
proof (induction k arbitrary: mapid n)
  case 0
  then show ?case using creates_0 [of w mapid] by (cases n) auto
next
  case (Suc k)
  from Suc.prems(1) obtain c where c: "c \<in> set (parentMapData w mapid)" "descends w k c x" by auto
  from Suc.prems(2) creates_0 [of w mapid] obtain n' where n: "n = Suc n'" by (cases n) auto
  from creates_child [OF Suc.prems(2) [unfolded n] c(1)] have "creates w n' c" .
  from Suc.IH [OF c(2) this] show ?case by (simp add: n)
qed

lemma cycle_not_created:
  assumes "descends w (Suc k) mapid mapid"
  shows "\<not> creates w n mapid"
proof (induction n rule: less_induct)
  case (less n)
  show ?case
  proof
    assume c: "creates w n mapid"
    from creates_descends [OF assms c] have "Suc k < n" "creates w (n - Suc k) mapid" by simp_all
    with less [of "n - Suc k"] show False by simp
  qed
qed

lemma CreateBaseMap_i_Suc:
  "CreateBaseMap_i w (Suc n) e m =
     (case add_children w n (length (objects m)) (parentMapData w (ID e)) (installed e m) of
        None \<Rightarrow> None
      | Some (Inl err) \<Rightarrow> Some (Inl err)
      | Some (Inr m4) \<Rightarrow> Some (Inr (length (objects m), loaded e (length (objects m)) m4)))"
  by (simp add: installed_def loaded_def Let_def split: option.splits sum.splits)

lemma CreateBaseMap_i_SucD:
  assumes "CreateBaseMap_i w (Suc n) e m = Some (Inr (a, m1))"
  shows "a = length (objects m) \<and>
         (\<exists>m4. add_children w n a (parentMapData w (ID e)) (installed e m) = Some (Inr m4) \<and>
               m1 = loaded e a m4)"
  using assms unfolding CreateBaseMap_i_Suc by (auto split: option.splits sum.splits)

lemma FindBaseMap_installed [simp]:
  "FindBaseMap (installed e m) = (FindBaseMap m)(ID e \<mapsto> length (objects m))"
  by (rule ext) (simp add: FindBaseMap_def installed_def Let_def DiscoverGridMapFiles_def update_conv')

lemma FindBaseMap_loaded [simp]: "FindBaseMap (loaded e a m) = FindBaseMap m"
  by (rule ext) (simp add: FindBaseMap_def loaded_def LoadCorpseData_def LoadRespawnTimes_def)

lemma FindBaseMap_AddChild [simp]: "FindBaseMap (AddChildTerrainMap a c m) = FindBaseMap m"
  by (rule ext) (simp add: FindBaseMap_def AddChildTerrainMap_def)

lemma add_children_ConsD:
  assumes "add_children w n a (c # cs) m = Some (Inr m')"
  shows "\<exists>e ch m1. LookupEntry w c = Some e \<and> CreateBaseMap_i w n e m = Some (Inr (ch, m1)) \<and>
           add_children w n a cs (AddChildTerrainMap a ch m1) = Some (Inr m')"
  using assms by (auto simp: AssertEntry_def split: option.splits sum.splits prod.splits)

lemma add_children_registry:
  assumes IH: "\<And>e m a m1 x. CreateBaseMap_i w n e m = Some (Inr (a, m1)) \<Longrightarrow>
                 FindBaseMap m1 x \<noteq> FindBaseMap m x \<Longrightarrow> \<exists>k. descends w k (ID e) x"
  shows "add_children w n a cs m = Some (Inr m') \<Longrightarrow> FindBaseMap m' x \<noteq> FindBaseMap m x \<Longrightarrow>
           \<exists>c\<in>set cs. \<exists>k. descends w k c x"
proof (induction cs arbitrary: m)
  case Nil
  then show ?case by simp
next
  case (Cons c cs)
  from add_children_ConsD [OF Cons.prems(1)] obtain e ch m1 where
    e: "LookupEntry w c = Some e" and cr: "CreateBaseMap_i w n e m = Some (Inr (ch, m1))"
    and rest: "add_children w n a cs (AddChildTerrainMap a ch m1) = Some (Inr m')" by blast
  show ?case
  proof (cases "FindBaseMap m1 x = FindBaseMap m x")
    case True
    with Cons.prems(2) have "FindBaseMap m' x \<noteq> FindBaseMap (AddChildTerrainMap a ch m1) x" by simp
    from Cons.IH [OF rest this] show ?thesis by auto
  next
    case False
    from IH [OF cr False] LookupEntry_ID [OF e] show ?thesis by auto
  qed
qed

lemma CreateBaseMap_i_registry:
  "CreateBaseMap_i w n e m = Some (Inr (a, m1)) \<Longrightarrow> FindBaseMap m1 x \<noteq> FindBaseMap m x \<Longrightarrow>
     \<exists>k. descends w k (ID e) x"
proof (induction n arbitrary: e m a m1 x)
  case 0
  then show ?case by simp
next
  case (Suc n)
  from CreateBaseMap_i_SucD [OF Suc.prems(1)] obtain m4 where a: "a = length (objects m)"
    and ch: "add_children w n a (parentMapData w (ID e)) (installed e m) = Some (Inr m4)"
    and m1: "m1 = loaded e a m4" by blast
  show ?case
  proof (cases "x = ID e")
    case True
    have "descends w 0 (ID e) x" using True by simp
    then show ?thesis by blast
  next
    case False
    with Suc.prems(2) have ne: "FindBaseMap m4 x \<noteq> FindBaseMap (installed e m) x" by (simp add: m1)
    have "\<exists>c\<in>set (parentMapData w (ID e)). \<exists>k. descends w k c x"
      by (rule add_children_registry [OF _ ch ne]) (rule Suc.IH; assumption)
    then obtain c k where
      "c \<in> set (parentMapData w (ID e))" "descends w k c x" by blast
    then have "descends w (Suc k) (ID e) x" by auto
    then show ?thesis by blast
  qed
qed

lemma CreateBaseMap_i_registered:
  assumes cr: "CreateBaseMap_i w n e m = Some (Inr (a, m1))" and e: "LookupEntry w mapid = Some e"
  shows "FindBaseMap m1 mapid = Some a"
proof -
  have id: "ID e = mapid" by (rule LookupEntry_ID [OF e])
  from cr obtain n' where n: "n = Suc n'" by (cases n) auto
  from CreateBaseMap_i_SucD [OF cr [unfolded n]] obtain m4 where a: "a = length (objects m)"
    and ch: "add_children w n' a (parentMapData w (ID e)) (installed e m) = Some (Inr m4)"
    and m1: "m1 = loaded e a m4" by blast
  have "FindBaseMap m4 mapid = FindBaseMap (installed e m) mapid"
  proof (rule ccontr)
    assume "FindBaseMap m4 mapid \<noteq> FindBaseMap (installed e m) mapid"
    have "\<exists>c\<in>set (parentMapData w (ID e)). \<exists>k. descends w k c mapid"
      by (rule add_children_registry [OF _ ch \<open>FindBaseMap m4 mapid \<noteq> FindBaseMap (installed e m) mapid\<close>])
        (rule CreateBaseMap_i_registry; assumption)
    then obtain c k where
      "c \<in> set (parentMapData w (ID e))" "descends w k c mapid" by blast
    then have "descends w (Suc k) mapid mapid" using id by auto
    from cycle_not_created [OF this, of n] show False using cr e by (auto simp: creates_def)
  qed
  then show ?thesis by (simp add: m1 a id)
qed

lemma CreateBaseMap_registered:
  "CreateBaseMap w n mapid m = Some (Inr (a, m1)) \<Longrightarrow> FindBaseMap m1 mapid = Some a"
proof (cases n)
  case 0
  assume "CreateBaseMap w n mapid m = Some (Inr (a, m1))"
  with 0 show ?thesis by simp
next
  case (Suc n')
  assume r: "CreateBaseMap w n mapid m = Some (Inr (a, m1))"
  show ?thesis
  proof (cases "FindBaseMap m mapid")
    case (Some b)
    with r Suc show ?thesis by simp
  next
    case None
    with r Suc obtain e where e: "LookupEntry w mapid = Some e"
      by (auto simp: AssertEntry_def split: option.splits)
    show ?thesis
    proof (cases "parent_of e")
      case (Some p)
      with r Suc None e show ?thesis
        by (auto simp: AssertEntry_def split: option.splits sum.splits)
    next
      case N: None
      with r Suc None e have "CreateBaseMap_i w n' e m = Some (Inr (a, m1))"
        by (simp add: AssertEntry_def)
      from CreateBaseMap_i_registered [OF this e] show ?thesis .
    qed
  qed
qed

lemma example_create_1:
  "CreateBaseMap example_world (Suc (Suc (Suc 0))) 1 empty_manager = Some (Inr (0, example_created))"
  by (simp add: FindBaseMap_def AssertEntry_def LookupEntry_def parent_of_def new_Map_def
      DiscoverGridMapFiles_def AddChildTerrainMap_def LoadRespawnTimes_def LoadCorpseData_def
      example_created_def example_defs Let_def)

text \<open>
  Claim C4 as stated fails: \<open>CreateMap\<close> on the map 1, which is not instanceable, with the
  instance id 5 returns the base map.
\<close>

theorem CreateMap_ignores_instance_id_on_plain_map:
  "\<not> Instanceable (example_continent 1 (- 1)) \<and>
   LookupEntry example_world 1 = Some (example_continent 1 (- 1)) \<and>
   CreateMap example_world (Suc (Suc (Suc 0))) 1 (example_ghost False 0) 5 empty_manager =
     Some (Inr (Some 0, example_created)) \<and>
   \<not> obj_Instanceable (objects example_created ! 0)"
proof -
  have p: "\<not> obj_Instanceable (objects example_created ! 0)"
    by (simp add: example_created_def example_object_def)
  have c: "CreateMap example_world (Suc (Suc (Suc 0))) 1 (example_ghost False 0) 5 empty_manager =
     Some (Inr (Some 0, example_created))"
    unfolding CreateMap_def example_create_1 using p by simp
  have e: "\<not> Instanceable (example_continent 1 (- 1))"
    "LookupEntry example_world 1 = Some (example_continent 1 (- 1))"
    by (simp_all add: LookupEntry_def example_defs)
  from e c p show ?thesis by simp
qed

text \<open>
  Claim C4, amended. When the base map is not instanceable, \<open>CreateMap\<close> returns the base
  map whatever instance id is asked for; it is the lookup \<open>FindMap\<close> that returns the base
  map for the instance id 0 only and finds nothing for every other instance id.
\<close>

theorem Resolve_on_plain_map:
  assumes "CreateBaseMap w n mapid m = Some (Inr (a, m1))"
    and "\<not> obj_Instanceable (objects m1 ! a)"
  shows "CreateMap w n mapid player loginInstanceId m = Some (Inr (Some a, m1)) \<and>
         FindMap m1 mapid instanceId = (if instanceId = 0 then Some a else None)"
  using assms CreateBaseMap_registered [OF assms(1)] by (simp add: CreateMap_def FindMap_def)

text \<open>
Claim C4, amended, witness: map 1 and the instance ids 0 and 5.
\<close>

theorem Resolve_on_plain_map_witness:
  "CreateBaseMap example_world (Suc (Suc (Suc 0))) 1 empty_manager = Some (Inr (0, example_created)) \<and>
   \<not> obj_Instanceable (objects example_created ! 0) \<and>
   CreateMap example_world (Suc (Suc (Suc 0))) 1 (example_ghost False 0) 5 empty_manager =
     Some (Inr (Some 0, example_created)) \<and>
   FindMap example_created 1 0 = Some 0 \<and> FindMap example_created 1 5 = None"
proof -
  have p: "\<not> obj_Instanceable (objects example_created ! 0)"
    by (simp add: example_created_def example_object_def)
  note t = Resolve_on_plain_map [OF example_create_1 p]
  from t [of "example_ghost False 0" 5 0] t [of "example_ghost False 0" 5 5] example_create_1 p
  show ?thesis by simp
qed

subsection \<open>The hierarchy of base maps: proofs\<close>

lemma subtree_self: "mapid \<in> subtree w mapid"
  unfolding subtree_def using descends.simps(1) [of w mapid mapid] by blast

lemma subtree_child:
  "c \<in> set (parentMapData w mapid) \<Longrightarrow> x \<in> subtree w c \<Longrightarrow> x \<in> subtree w mapid"
  unfolding subtree_def using descends.simps(2) by blast

lemma subtree_cases:
  "x \<in> subtree w mapid \<Longrightarrow> x = mapid \<or> (\<exists>c\<in>set (parentMapData w mapid). x \<in> subtree w c)"
proof -
  assume "x \<in> subtree w mapid"
  then obtain k where k: "descends w k mapid x" by (auto simp: subtree_def)
  show ?thesis
  proof (cases k)
    case 0
    with k show ?thesis by simp
  next
    case (Suc k')
    with k show ?thesis by (auto simp: subtree_def)
  qed
qed

lemma descends_last:
  "descends w (Suc k) q y \<Longrightarrow> \<exists>p. descends w k q p \<and> y \<in> set (parentMapData w p)"
proof (induction k arbitrary: q)
  case 0
  then show ?case by auto
next
  case (Suc k)
  from Suc.prems obtain c where c: "c \<in> set (parentMapData w q)" "descends w (Suc k) c y" by auto
  from Suc.IH [OF c(2)] obtain p where "descends w k c p" "y \<in> set (parentMapData w p)" by blast
  with c(1) show ?case by auto
qed

lemma descends_snoc:
  "descends w k r q \<Longrightarrow> c \<in> set (parentMapData w q) \<Longrightarrow> descends w (Suc k) r c"
proof (induction k arbitrary: r)
  case 0
  then show ?case by auto
next
  case (Suc k)
  from Suc.prems(1) obtain c0 where c0: "c0 \<in> set (parentMapData w r)" "descends w k c0 q" by auto
  from Suc.IH [OF c0(2) Suc.prems(2)] have "descends w (Suc k) c0 c" .
  with c0(1) show ?case by (subst descends.simps(2)) blast
qed

lemma subtree_step:
  "q \<in> subtree w r \<Longrightarrow> c \<in> set (parentMapData w q) \<Longrightarrow> c \<in> subtree w r"
  unfolding subtree_def using descends_snoc by blast

lemma descends_par:
  assumes "consistent w" and "descends w (Suc k) q y"
  shows "\<exists>p. par w y = Some p \<and> descends w k q p"
  using descends_last [OF assms(2)] assms(1) by (auto simp: consistent_def)

lemma descends_meet:
  assumes c: "consistent w"
  shows "descends w k1 c1 y \<Longrightarrow> descends w k2 c2 y \<Longrightarrow> k1 \<le> k2 \<Longrightarrow> descends w (k2 - k1) c2 c1"
proof (induction k1 arbitrary: y k2)
  case 0
  then show ?case by simp
next
  case (Suc k1)
  from Suc.prems(3) obtain k2' where k2: "k2 = Suc k2'" by (cases k2) auto
  from descends_par [OF c Suc.prems(1)] obtain p1 where p1: "par w y = Some p1" "descends w k1 c1 p1"
    by blast
  from descends_par [OF c Suc.prems(2) [unfolded k2]] obtain p2 where
    p2: "par w y = Some p2" "descends w k2' c2 p2" by blast
  from p1 p2 have "descends w k2' c2 p1" by simp
  from Suc.IH [OF p1(2) this] Suc.prems(3) show ?case by (simp add: k2)
qed

lemma parent_not_in_child_subtree:
  assumes "creates w n mapid" and "c \<in> set (parentMapData w mapid)"
  shows "mapid \<notin> subtree w c"
proof
  assume "mapid \<in> subtree w c"
  then obtain k where "descends w k c mapid" by (auto simp: subtree_def)
  with assms(2) have "descends w (Suc k) mapid mapid" by auto
  from cycle_not_created [OF this] assms(1) show False by blast
qed

lemma sibling_subtrees_disjoint:
  assumes c: "consistent w" and cr: "creates w n mapid"
    and c1: "c1 \<in> set (parentMapData w mapid)" and c2: "c2 \<in> set (parentMapData w mapid)"
    and ne: "c1 \<noteq> c2"
  shows "subtree w c1 \<inter> subtree w c2 = {}"
proof (rule ccontr)
  assume "subtree w c1 \<inter> subtree w c2 \<noteq> {}"
  then obtain y k1 k2 where d: "descends w k1 c1 y" "descends w k2 c2 y"
    by (auto simp: subtree_def)
  have step: "False" if a: "descends w j a' b'" and a': "a' \<in> set (parentMapData w mapid)"
    and b': "b' \<in> set (parentMapData w mapid)" and ab: "a' \<noteq> b'" for j a' b'
  proof (cases j)
    case 0
    with a ab show False by simp
  next
    case (Suc j')
    from descends_par [OF c a [unfolded Suc]] obtain p where p: "par w b' = Some p" "descends w j' a' p"
      by blast
    from c b' have "par w b' = Some mapid" by (simp add: consistent_def)
    with p have "mapid \<in> subtree w a'" by (auto simp: subtree_def)
    with parent_not_in_child_subtree [OF cr a'] show False by simp
  qed
  show False
  proof (cases "k1 \<le> k2")
    case True
    from descends_meet [OF c d True] step [OF _ c2 c1] ne show False by blast
  next
    case False
    then have "k2 \<le> k1" by simp
    from descends_meet [OF c d(2) d(1) this] step [OF _ c1 c2] ne show False by blast
  qed
qed

lemma subtree_up_closed:
  assumes c: "consistent w" and y: "y \<in> subtree w r" and ne: "y \<noteq> r"
  shows "\<exists>p. par w y = Some p \<and> p \<in> subtree w r"
proof -
  from y obtain k where k: "descends w k r y" by (auto simp: subtree_def)
  with ne obtain k' where "k = Suc k'" by (cases k) auto
  with k have "descends w (Suc k') r y" by simp
  from descends_par [OF c this] show ?thesis unfolding subtree_def by blast
qed

lemma subtree_unregistered:
  assumes c: "consistent w"
    and up: "\<forall>x q. FindBaseMap m x \<noteq> None \<and> par w x = Some q \<longrightarrow> FindBaseMap m q \<noteq> None"
    and r: "FindBaseMap m r = None"
  shows "descends w k r y \<Longrightarrow> FindBaseMap m y = None"
proof (induction k arbitrary: y)
  case 0
  with r show ?case by simp
next
  case (Suc k)
  from descends_par [OF c Suc.prems] obtain p where p: "par w y = Some p" "descends w k r p" by blast
  from Suc.IH [OF p(2)] have "FindBaseMap m p = None" .
  with up p(1) show ?case by blast
qed

lemma objects_installed:
  "objects (installed e m) = objects m @ [(new_Map e)\<lparr>gridMapFilesDiscovered := True\<rparr>]"
  by (simp add: installed_def Let_def DiscoverGridMapFiles_def)

lemma length_objects_loaded: "length (objects (loaded e a m)) = length (objects m)"
  by (simp add: loaded_def LoadCorpseData_def LoadRespawnTimes_def)

lemma children_loaded:
  "childTerrainMaps (objects (loaded e a m) ! i) = childTerrainMaps (objects m ! i)"
  by (cases "a < length (objects m)"; cases "i = a")
     (simp_all add: loaded_def LoadCorpseData_def LoadRespawnTimes_def list_update_beyond)

lemma nth_objects_loaded: "i \<noteq> a \<Longrightarrow> objects (loaded e a m) ! i = objects m ! i"
  by (simp add: loaded_def LoadCorpseData_def LoadRespawnTimes_def)

lemma objects_AddChild:
  "objects (AddChildTerrainMap a c m) =
     (objects m)[a := (objects m ! a)\<lparr>childTerrainMaps := childTerrainMaps (objects m ! a) @ [c]\<rparr>]"
  by (simp add: AddChildTerrainMap_def)

lemma sum_list_map_update:
  fixes f :: "'a \<Rightarrow> nat"
  assumes "a < length xs" and "f x = f (xs ! a) + d"
  shows "sum_list (map f (xs[a := x])) = sum_list (map f xs) + d"
  using assms
proof (induction xs arbitrary: a)
  case Nil
  then show ?case by simp
next
  case (Cons y ys)
  then show ?case by (cases a) auto
qed

lemma sum_list_map_cong_nth:
  fixes f :: "'a \<Rightarrow> nat"
  assumes "length xs = length ys" and "\<forall>i<length xs. f (xs ! i) = f (ys ! i)"
  shows "sum_list (map f xs) = sum_list (map f ys)"
proof -
  have "map f xs = map f ys" using assms by (auto intro: nth_equalityI)
  then show ?thesis by simp
qed

lemma attachments_AddChild:
  assumes "a < length (objects m)"
  shows "attachments (AddChildTerrainMap a c m) y = attachments m y + (if y = c then 1 else 0)"
  unfolding attachments_def objects_AddChild
  by (rule sum_list_map_update [OF assms]) simp

lemma attachments_installed: "attachments (installed e m) y = attachments m y"
  by (simp add: attachments_def objects_installed new_Map_def)

lemma attachments_loaded: "attachments (loaded e a m) y = attachments m y"
  unfolding attachments_def
  by (rule sum_list_map_cong_nth) (simp_all add: length_objects_loaded children_loaded)

lemma created_belowD:
  assumes "created_below m a m1"
  shows "a = length (objects m)" and "length (objects m) < length (objects m1)"
    and "\<forall>i<length (objects m). objects m1 ! i = objects m ! i"
    and "\<forall>i. length (objects m) \<le> i \<and> i < length (objects m1) \<longrightarrow>
        (\<forall>c\<in>set (kids m1 i). i < c \<and> c < length (objects m1))"
    and "\<forall>y. attachments m1 y =
        attachments m y + (if length (objects m) < y \<and> y < length (objects m1) then 1 else 0)"
    and "\<forall>x. FindBaseMap m1 x \<noteq> FindBaseMap m x \<longrightarrow>
        (\<exists>b. FindBaseMap m1 x = Some b \<and> length (objects m) \<le> b \<and> b < length (objects m1))"
proof -
  from assms have a: "a = length (objects m)" unfolding created_below_def by (rule conjunct1)
  from assms show "a = length (objects m)" by (rule a [THEN subst, of "\<lambda>x. x = length (objects m)", OF _] | simp add: a)
  from assms [unfolded created_below_def a [symmetric]]
  show "length (objects m) < length (objects m1)"
    and "\<forall>i<length (objects m). objects m1 ! i = objects m ! i"
    and "\<forall>i. length (objects m) \<le> i \<and> i < length (objects m1) \<longrightarrow>
        (\<forall>c\<in>set (kids m1 i). i < c \<and> c < length (objects m1))"
    and "\<forall>y. attachments m1 y =
        attachments m y + (if length (objects m) < y \<and> y < length (objects m1) then 1 else 0)"
    and "\<forall>x. FindBaseMap m1 x \<noteq> FindBaseMap m x \<longrightarrow>
        (\<exists>b. FindBaseMap m1 x = Some b \<and> length (objects m) \<le> b \<and> b < length (objects m1))"
    unfolding a [symmetric] by blast+
qed

lemma children_addedD:
  assumes "children_added m a m'"
  shows "length (objects m) \<le> length (objects m')"
    and "\<forall>i<length (objects m). i \<noteq> a \<longrightarrow> objects m' ! i = objects m ! i"
    and "\<exists>chs. kids m' a = kids m a @ chs \<and>
        (\<forall>c\<in>set chs. length (objects m) \<le> c \<and> c < length (objects m'))"
    and "\<forall>i. length (objects m) \<le> i \<and> i < length (objects m') \<longrightarrow>
        (\<forall>c\<in>set (kids m' i). i < c \<and> c < length (objects m'))"
    and "\<forall>y. attachments m' y =
        attachments m y + (if length (objects m) \<le> y \<and> y < length (objects m') then 1 else 0)"
    and "\<forall>x. FindBaseMap m' x \<noteq> FindBaseMap m x \<longrightarrow>
        (\<exists>b. FindBaseMap m' x = Some b \<and> length (objects m) \<le> b \<and> b < length (objects m'))"
  using assms unfolding children_added_def by blast+

lemma length_AddChild [simp]: "length (objects (AddChildTerrainMap a c m)) = length (objects m)"
  by (simp add: objects_AddChild)

lemma nth_AddChild_other: "i \<noteq> a \<Longrightarrow> objects (AddChildTerrainMap a c m) ! i = objects m ! i"
  by (simp add: objects_AddChild)

lemma kids_AddChild:
  "a < length (objects m) \<Longrightarrow>
     kids (AddChildTerrainMap a c m) i = (if i = a then kids m a @ [c] else kids m i)"
  by (simp add: kids_def objects_AddChild)

lemma kids_loaded [simp]: "kids (loaded e a m) i = kids m i"
  by (simp add: kids_def children_loaded)

lemma add_children_added:
  assumes IH: "\<And>e m a m1. CreateBaseMap_i w n e m = Some (Inr (a, m1)) \<Longrightarrow> created_below m a m1"
  shows "add_children w n a cs m = Some (Inr m') \<Longrightarrow> a < length (objects m) \<Longrightarrow>
           children_added m a m'"
proof (induction cs arbitrary: m)
  case Nil
  then show ?case by (simp add: children_added_def)
next
  case (Cons c cs)
  from add_children_ConsD [OF Cons.prems(1)] obtain e ch m1 where
    cr: "CreateBaseMap_i w n e m = Some (Inr (ch, m1))"
    and rest: "add_children w n a cs (AddChildTerrainMap a ch m1) = Some (Inr m')" by blast
  define m2 where "m2 = AddChildTerrainMap a ch m1"
  define L0 where "L0 = length (objects m)"
  define L1 where "L1 = length (objects m1)"
  define L' where "L' = length (objects m')"
  have aL0: "a < L0" using Cons.prems(2) by (simp add: L0_def)
  note cb = created_belowD [OF IH [OF cr], folded L0_def L1_def]
  have ch: "ch = L0" and L01: "L0 < L1"
    and H3: "\<forall>i<L0. objects m1 ! i = objects m ! i"
    and H4: "\<forall>i. L0 \<le> i \<and> i < L1 \<longrightarrow> (\<forall>c\<in>set (kids m1 i). i < c \<and> c < L1)"
    and H5: "\<forall>y. attachments m1 y = attachments m y + (if L0 < y \<and> y < L1 then 1 else 0)"
    and H6: "\<forall>x. FindBaseMap m1 x \<noteq> FindBaseMap m x \<longrightarrow>
               (\<exists>b. FindBaseMap m1 x = Some b \<and> L0 \<le> b \<and> b < L1)"
    by (rule cb)+
  have l2: "length (objects m2) = L1" by (simp add: m2_def L1_def)
  have a1: "a < length (objects m1)" using aL0 L01 by (simp add: L1_def)
  have a2: "a < length (objects m2)" using aL0 L01 l2 by simp
  note ca = children_addedD [OF Cons.IH [OF rest [folded m2_def] a2], unfolded l2, folded L'_def]
  have
    C1: "L1 \<le> L'"
    and C2: "\<forall>i<L1. i \<noteq> a \<longrightarrow> objects m' ! i = objects m2 ! i"
    and C3: "\<exists>chs. kids m' a = kids m2 a @ chs \<and> (\<forall>c\<in>set chs. L1 \<le> c \<and> c < L')"
    and C4: "\<forall>i. L1 \<le> i \<and> i < L' \<longrightarrow> (\<forall>c\<in>set (kids m' i). i < c \<and> c < L')"
    and C5: "\<forall>y. attachments m' y = attachments m2 y + (if L1 \<le> y \<and> y < L' then 1 else 0)"
    and C6: "\<forall>x. FindBaseMap m' x \<noteq> FindBaseMap m2 x \<longrightarrow>
               (\<exists>b. FindBaseMap m' x = Some b \<and> L1 \<le> b \<and> b < L')"
    by (rule ca)+
  have k2: "kids m2 a = kids m a @ [ch]"
    using a1 H3 aL0 by (simp add: m2_def kids_AddChild) (simp add: kids_def)
  have g1: "L0 \<le> L'" using L01 C1 by simp
  have g2: "\<forall>i<L0. i \<noteq> a \<longrightarrow> objects m' ! i = objects m ! i"
  proof (intro allI impI)
    fix i assume i: "i < L0" "i \<noteq> a"
    then have "objects m' ! i = objects m2 ! i" using C2 L01 by simp
    also have "\<dots> = objects m1 ! i" using i by (simp add: m2_def nth_AddChild_other)
    also have "\<dots> = objects m ! i" using H3 i by simp
    finally show "objects m' ! i = objects m ! i" .
  qed
  have g3: "\<exists>chs. kids m' a = kids m a @ chs \<and> (\<forall>c\<in>set chs. L0 \<le> c \<and> c < L')"
  proof -
    from C3 obtain chs where chs: "kids m' a = kids m2 a @ chs" "\<forall>c\<in>set chs. L1 \<le> c \<and> c < L'"
      by blast
    have "kids m' a = kids m a @ (ch # chs)" using chs(1) k2 by simp
    moreover have "\<forall>c\<in>set (ch # chs). L0 \<le> c \<and> c < L'"
      using chs(2) ch L01 C1 by auto
    ultimately show ?thesis by blast
  qed
  have g4: "\<forall>i. L0 \<le> i \<and> i < L' \<longrightarrow> (\<forall>c\<in>set (kids m' i). i < c \<and> c < L')"
  proof (intro allI impI)
    fix i assume i: "L0 \<le> i \<and> i < L'"
    show "\<forall>c\<in>set (kids m' i). i < c \<and> c < L'"
    proof (cases "L1 \<le> i")
      case True
      with i C4 show ?thesis by blast
    next
      case False
      then have i1: "i < L1" by simp
      have ia: "i \<noteq> a" using i aL0 by simp
      have "objects m' ! i = objects m2 ! i" using C2 i1 ia by simp
      also have "\<dots> = objects m1 ! i" using ia by (simp add: m2_def nth_AddChild_other)
      finally have e: "kids m' i = kids m1 i" by (simp add: kids_def)
      from H4 i i1 have "\<forall>c\<in>set (kids m1 i). i < c \<and> c < L1" by blast
      with C1 show ?thesis unfolding e by auto
    qed
  qed
  have g5: "\<forall>y. attachments m' y = attachments m y + (if L0 \<le> y \<and> y < L' then 1 else 0)"
  proof
    fix y
    have "attachments m2 y = attachments m1 y + (if y = ch then 1 else 0)"
      unfolding m2_def by (rule attachments_AddChild [OF a1])
    with C5 H5 have "attachments m' y = attachments m y + (if L0 < y \<and> y < L1 then 1 else 0)
        + (if y = L0 then 1 else 0) + (if L1 \<le> y \<and> y < L' then 1 else 0)"
      by (simp add: ch)
    also have "\<dots> = attachments m y + (if L0 \<le> y \<and> y < L' then 1 else 0)"
      using L01 C1 by auto
    finally show "attachments m' y = attachments m y + (if L0 \<le> y \<and> y < L' then 1 else 0)" .
  qed
  have g6: "\<forall>x. FindBaseMap m' x \<noteq> FindBaseMap m x \<longrightarrow>
               (\<exists>b. FindBaseMap m' x = Some b \<and> L0 \<le> b \<and> b < L')"
  proof (intro allI impI)
    fix x assume ne: "FindBaseMap m' x \<noteq> FindBaseMap m x"
    show "\<exists>b. FindBaseMap m' x = Some b \<and> L0 \<le> b \<and> b < L'"
    proof (cases "FindBaseMap m' x = FindBaseMap m2 x")
      case True
      with ne have "FindBaseMap m1 x \<noteq> FindBaseMap m x" by (simp add: m2_def)
      with H6 obtain b where "FindBaseMap m1 x = Some b" "L0 \<le> b" "b < L1" by blast
      with True C1 show ?thesis by (auto simp: m2_def)
    next
      case False
      with C6 obtain b where "FindBaseMap m' x = Some b" "L1 \<le> b" "b < L'" by blast
      with L01 show ?thesis by auto
    qed
  qed
  show ?case
    unfolding children_added_def L0_def [symmetric] L'_def [symmetric]
    using g1 g2 g3 g4 g5 g6 by blast
qed

lemma CreateBaseMap_i_created:
  "CreateBaseMap_i w n e m = Some (Inr (a, m1)) \<Longrightarrow> created_below m a m1"
proof (induction n arbitrary: e m a m1)
  case 0
  then show ?case by simp
next
  case (Suc n)
  from CreateBaseMap_i_SucD [OF Suc.prems] obtain m4 where a: "a = length (objects m)"
    and ch: "add_children w n a (parentMapData w (ID e)) (installed e m) = Some (Inr m4)"
    and m1: "m1 = loaded e a m4" by blast
  define m0 where "m0 = installed e m"
  define L4 where "L4 = length (objects m4)"
  have l0: "length (objects m0) = Suc a" by (simp add: m0_def objects_installed a)
  have k0: "kids m0 a = []" by (simp add: kids_def m0_def objects_installed a new_Map_def)
  have o0: "\<forall>i<a. objects m0 ! i = objects m ! i"
    by (simp add: m0_def objects_installed a nth_append)
  have "children_added m0 a m4"
    by (rule add_children_added [OF _ ch [folded m0_def]]) (rule Suc.IH, assumption, simp add: l0)
  note ca = children_addedD [OF this, unfolded l0, folded L4_def]
  have C1: "Suc a \<le> L4"
    and C2: "\<forall>i<Suc a. i \<noteq> a \<longrightarrow> objects m4 ! i = objects m0 ! i"
    and C3: "\<exists>chs. kids m4 a = kids m0 a @ chs \<and> (\<forall>c\<in>set chs. Suc a \<le> c \<and> c < L4)"
    and C4: "\<forall>i. Suc a \<le> i \<and> i < L4 \<longrightarrow> (\<forall>c\<in>set (kids m4 i). i < c \<and> c < L4)"
    and C5: "\<forall>y. attachments m4 y = attachments m0 y + (if Suc a \<le> y \<and> y < L4 then 1 else 0)"
    and C6: "\<forall>x. FindBaseMap m4 x \<noteq> FindBaseMap m0 x \<longrightarrow>
               (\<exists>b. FindBaseMap m4 x = Some b \<and> Suc a \<le> b \<and> b < L4)"
    by (rule ca)+
  have l1: "length (objects m1) = L4" by (simp add: m1 length_objects_loaded L4_def)
  have h3: "\<forall>i<a. objects m1 ! i = objects m ! i"
  proof (intro allI impI)
    fix i assume i: "i < a"
    then have "objects m1 ! i = objects m4 ! i" by (simp add: m1 nth_objects_loaded)
    also have "\<dots> = objects m0 ! i" using C2 i by simp
    also have "\<dots> = objects m ! i" using o0 i by simp
    finally show "objects m1 ! i = objects m ! i" .
  qed
  have h4: "\<forall>i. a \<le> i \<and> i < L4 \<longrightarrow> (\<forall>c\<in>set (kids m1 i). i < c \<and> c < L4)"
  proof (intro allI impI)
    fix i assume i: "a \<le> i \<and> i < L4"
    show "\<forall>c\<in>set (kids m1 i). i < c \<and> c < L4"
    proof (cases "i = a")
      case True
      with C3 k0 show ?thesis by (auto simp: m1)
    next
      case False
      with i have "Suc a \<le> i \<and> i < L4" by simp
      with C4 have "\<forall>c\<in>set (kids m4 i). i < c \<and> c < L4" by blast
      then show ?thesis by (simp add: m1)
    qed
  qed
  have h5: "\<forall>y. attachments m1 y = attachments m y + (if a < y \<and> y < L4 then 1 else 0)"
    using C5 by (auto simp: m1 attachments_loaded m0_def attachments_installed)
  have h6: "\<forall>x. FindBaseMap m1 x \<noteq> FindBaseMap m x \<longrightarrow>
              (\<exists>b. FindBaseMap m1 x = Some b \<and> a \<le> b \<and> b < L4)"
  proof (intro allI impI)
    fix x assume ne: "FindBaseMap m1 x \<noteq> FindBaseMap m x"
    show "\<exists>b. FindBaseMap m1 x = Some b \<and> a \<le> b \<and> b < L4"
    proof (cases "FindBaseMap m4 x = FindBaseMap m0 x")
      case True
      with ne have "x = ID e" by (auto simp: m1 m0_def split: if_splits)
      with True C1 show ?thesis by (simp add: m1 m0_def a)
    next
      case False
      with C6 obtain b where "FindBaseMap m4 x = Some b" "Suc a \<le> b" "b < L4" by blast
      then show ?thesis by (auto simp: m1)
    qed
  qed
  have h2: "a < L4" using C1 by simp
  show ?case
    unfolding created_below_def l1 a [symmetric]
    using h2 h3 h4 h5 h6 by blast
qed

lemma add_children_unchanged:
  assumes ch: "add_children w n a cs m = Some (Inr m')"
    and y: "\<forall>c\<in>set cs. y \<notin> subtree w c"
  shows "FindBaseMap m' y = FindBaseMap m y"
proof (rule ccontr)
  assume ne: "FindBaseMap m' y \<noteq> FindBaseMap m y"
  have "\<exists>c\<in>set cs. \<exists>k. descends w k c y"
    by (rule add_children_registry [OF _ ch ne]) (rule CreateBaseMap_i_registry; assumption)
  with y show False by (auto simp: subtree_def)
qed

lemma CreateBaseMap_i_unchanged:
  assumes "CreateBaseMap_i w n e m = Some (Inr (a, m1))" and "y \<notin> subtree w (ID e)"
  shows "FindBaseMap m1 y = FindBaseMap m y"
  using CreateBaseMap_i_registry [OF assms(1), of y] assms(2) by (auto simp: subtree_def)

lemma add_children_attached:
  assumes c: "consistent w" and cr: "creates w N x"
    and IH: "\<And>c e m a m1. LookupEntry w c = Some e \<Longrightarrow>
               \<forall>y\<in>subtree w c. FindBaseMap m y = None \<Longrightarrow>
               CreateBaseMap_i w n e m = Some (Inr (a, m1)) \<Longrightarrow> subtree_created w c a m1"
  shows "add_children w n a cs m = Some (Inr m') \<Longrightarrow> set cs \<subseteq> set (parentMapData w x) \<Longrightarrow>
         distinct cs \<Longrightarrow> a < length (objects m) \<Longrightarrow>
         \<forall>c\<in>set cs. \<forall>y\<in>subtree w c. FindBaseMap m y = None \<Longrightarrow>
         (\<forall>c\<in>set cs. \<forall>y\<in>subtree w c.
            \<exists>b. FindBaseMap m' y = Some b \<and> length (objects m) \<le> b \<and> b < length (objects m')) \<and>
         (\<forall>c\<in>set cs. attached_within w (subtree w c) m') \<and>
         (\<forall>c\<in>set cs. \<exists>d. FindBaseMap m' c = Some d \<and> d \<in> set (kids m' a))"
proof (induction cs arbitrary: m)
  case Nil
  then show ?case by simp
next
  case (Cons c cs)
  from add_children_ConsD [OF Cons.prems(1)] obtain e ch m1 where
    e: "LookupEntry w c = Some e"
    and cri: "CreateBaseMap_i w n e m = Some (Inr (ch, m1))"
    and rest: "add_children w n a cs (AddChildTerrainMap a ch m1) = Some (Inr m')" by blast
  define m2 where "m2 = AddChildTerrainMap a ch m1"
  have ide: "ID e = c" by (rule LookupEntry_ID [OF e])
  have cx: "c \<in> set (parentMapData w x)" and csx: "set cs \<subseteq> set (parentMapData w x)"
    using Cons.prems(2) by simp_all
  have dis: "c \<notin> set cs" "distinct cs" using Cons.prems(3) by simp_all
  have sep: "subtree w c \<inter> subtree w c' = {}" if "c' \<in> set cs" for c'
  proof -
    from that csx have "c' \<in> set (parentMapData w x)" by blast
    moreover from that dis(1) have "c \<noteq> c'" by blast
    ultimately show ?thesis using sibling_subtrees_disjoint [OF c cr cx] by blast
  qed
  have pre_c: "\<forall>y\<in>subtree w c. FindBaseMap m y = None" using Cons.prems(5) by simp
  from IH [OF e pre_c cri] have sc: "subtree_created w c ch m1" .
  note cb = created_belowD [OF CreateBaseMap_i_created [OF cri]]
  have chL: "ch = length (objects m)" by (rule cb(1))
  have L01: "length (objects m) < length (objects m1)" by (rule cb(2))
  have a1: "a < length (objects m1)" using Cons.prems(4) L01 by simp
  have a2: "a < length (objects m2)" using a1 by (simp add: m2_def)
  have ach: "a < ch" using Cons.prems(4) chL by simp
  have reg2: "FindBaseMap m2 = FindBaseMap m1" by (simp add: m2_def)
  have kids2: "kids m2 i = (if i = a then kids m1 a @ [ch] else kids m1 i)" for i
    unfolding m2_def by (rule kids_AddChild [OF a1])
  have pre_cs: "\<forall>c'\<in>set cs. \<forall>y\<in>subtree w c'. FindBaseMap m2 y = None"
  proof (intro ballI)
    fix c' y assume c': "c' \<in> set cs" and y: "y \<in> subtree w c'"
    from sep [OF c'] y have "y \<notin> subtree w (ID e)" by (auto simp: ide)
    from CreateBaseMap_i_unchanged [OF cri this] have "FindBaseMap m1 y = FindBaseMap m y" .
    with Cons.prems(5) c' y show "FindBaseMap m2 y = None" by (simp add: reg2)
  qed
  from Cons.IH [OF rest [folded m2_def] csx dis(2) a2 pre_cs]
  have R1: "\<forall>c\<in>set cs. \<forall>y\<in>subtree w c.
              \<exists>b. FindBaseMap m' y = Some b \<and> length (objects m2) \<le> b \<and> b < length (objects m')"
    and R2: "\<forall>c\<in>set cs. attached_within w (subtree w c) m'"
    and R3: "\<forall>c\<in>set cs. \<exists>d. FindBaseMap m' c = Some d \<and> d \<in> set (kids m' a)"
    by blast+
  have l2: "length (objects m2) = length (objects m1)" by (simp add: m2_def)
  have "children_added m2 a m'"
    by (rule add_children_added [OF _ rest [folded m2_def] a2]) (rule CreateBaseMap_i_created)
  note ca = children_addedD [OF this, unfolded l2]
  have L1': "length (objects m1) \<le> length (objects m')" by (rule ca(1))
  from ca(3) obtain chs where ka: "kids m' a = kids m2 a @ chs" by blast
  have keep_reg: "FindBaseMap m' y = FindBaseMap m1 y" if "y \<in> subtree w c" for y
  proof -
    have "\<forall>c'\<in>set cs. y \<notin> subtree w c'" using sep that by blast
    from add_children_unchanged [OF rest [folded m2_def] this] show ?thesis by (simp add: reg2)
  qed
  have keep_kids: "kids m' p = kids m1 p" if "ch \<le> p" "p < length (objects m1)" for p
  proof -
    have pa: "p \<noteq> a" using that ach by simp
    with ca(2) that have "objects m' ! p = objects m2 ! p" by simp
    then have "kids m' p = kids m2 p" by (simp add: kids_def)
    with pa show ?thesis by (simp add: kids2)
  qed
  from sc have s1: "FindBaseMap m1 c = Some ch"
    and s2: "\<forall>y\<in>subtree w c. \<exists>b. FindBaseMap m1 y = Some b \<and> ch \<le> b \<and> b < length (objects m1)"
    and s3: "attached_within w (subtree w c) m1"
    unfolding subtree_created_def by blast+
  have g1: "\<forall>y\<in>subtree w c.
              \<exists>b. FindBaseMap m' y = Some b \<and> length (objects m) \<le> b \<and> b < length (objects m')"
  proof
    fix y assume y: "y \<in> subtree w c"
    with s2 obtain b where "FindBaseMap m1 y = Some b" "ch \<le> b" "b < length (objects m1)" by blast
    with keep_reg [OF y] L1' chL
    show "\<exists>b. FindBaseMap m' y = Some b \<and> length (objects m) \<le> b \<and> b < length (objects m')"
      by auto
  qed
  have g2: "attached_within w (subtree w c) m'"
    unfolding attached_within_def
  proof (intro ballI)
    fix q c' assume q: "q \<in> subtree w c" and c': "c' \<in> set (parentMapData w q)"
    from s3 q c' obtain p d where pd: "FindBaseMap m1 q = Some p" "FindBaseMap m1 c' = Some d"
      "d \<in> set (kids m1 p)" unfolding attached_within_def by blast
    from s2 q pd(1) have p: "ch \<le> p" "p < length (objects m1)" by auto
    have c'in: "c' \<in> subtree w c" by (rule subtree_step [OF q c'])
    have e1: "FindBaseMap m' q = Some p" using keep_reg [OF q] pd(1) by simp
    have e2: "FindBaseMap m' c' = Some d" using keep_reg [OF c'in] pd(2) by simp
    have e3: "d \<in> set (kids m' p)" using keep_kids [OF p] pd(3) by simp
    show "\<exists>p d. FindBaseMap m' q = Some p \<and> FindBaseMap m' c' = Some d \<and> d \<in> set (kids m' p)"
      using e1 e2 e3 by blast
  qed
  have g3: "\<exists>d. FindBaseMap m' c = Some d \<and> d \<in> set (kids m' a)"
  proof -
    have "FindBaseMap m' c = Some ch" using keep_reg [OF subtree_self] s1 by simp
    moreover have "ch \<in> set (kids m' a)" by (simp add: ka kids2)
    ultimately show ?thesis by blast
  qed
  have r1: "\<forall>c\<in>set cs. \<forall>y\<in>subtree w c.
              \<exists>b. FindBaseMap m' y = Some b \<and> length (objects m) \<le> b \<and> b < length (objects m')"
  proof (intro ballI)
    fix c' y assume "c' \<in> set cs" "y \<in> subtree w c'"
    with R1 obtain b where "FindBaseMap m' y = Some b" "length (objects m2) \<le> b"
      "b < length (objects m')" by blast
    with l2 L01
    show "\<exists>b. FindBaseMap m' y = Some b \<and> length (objects m) \<le> b \<and> b < length (objects m')"
      by auto
  qed
  show ?case
  proof (intro conjI ballI)
    fix c' y assume "c' \<in> set (c # cs)" "y \<in> subtree w c'"
    then show "\<exists>b. FindBaseMap m' y = Some b \<and> length (objects m) \<le> b \<and> b < length (objects m')"
      using g1 r1 by (cases "c' = c") auto
  next
    fix c' assume "c' \<in> set (c # cs)"
    then show "attached_within w (subtree w c') m'" using g2 R2 by (cases "c' = c") auto
  next
    fix c' assume "c' \<in> set (c # cs)"
    then show "\<exists>d. FindBaseMap m' c' = Some d \<and> d \<in> set (kids m' a)"
      using g3 R3 by (cases "c' = c") auto
  qed
qed

lemma CreateBaseMap_i_subtree:
  assumes c: "consistent w"
  shows "LookupEntry w x = Some e \<Longrightarrow> \<forall>y\<in>subtree w x. FindBaseMap m y = None \<Longrightarrow>
         CreateBaseMap_i w n e m = Some (Inr (a, m1)) \<Longrightarrow> subtree_created w x a m1"
proof (induction n arbitrary: x e m a m1)
  case 0
  then show ?case by simp
next
  case (Suc n)
  have ide: "ID e = x" by (rule LookupEntry_ID [OF Suc.prems(1)])
  from CreateBaseMap_i_SucD [OF Suc.prems(3)] obtain m4 where a: "a = length (objects m)"
    and ch: "add_children w n a (parentMapData w x) (installed e m) = Some (Inr m4)"
    and m1: "m1 = loaded e a m4" by (auto simp: ide)
  define m0 where "m0 = installed e m"
  have cr: "creates w (Suc n) x" using Suc.prems(1,3) by (auto simp: creates_def)
  have l0: "length (objects m0) = Suc a" by (simp add: m0_def objects_installed a)
  have a0: "a < length (objects m0)" by (simp add: l0)
  have reg0: "FindBaseMap m0 = (FindBaseMap m)(x \<mapsto> a)" by (simp add: m0_def ide a)
  have xnot: "x \<notin> subtree w c'" if "c' \<in> set (parentMapData w x)" for c'
    by (rule parent_not_in_child_subtree [OF cr that])
  have pre: "\<forall>c'\<in>set (parentMapData w x). \<forall>y\<in>subtree w c'. FindBaseMap m0 y = None"
  proof (intro ballI)
    fix c' y assume c': "c' \<in> set (parentMapData w x)" and y: "y \<in> subtree w c'"
    from xnot [OF c'] y have "y \<noteq> x" by blast
    moreover from subtree_child [OF c' y] Suc.prems(2) have "FindBaseMap m y = None" by blast
    ultimately show "FindBaseMap m0 y = None" by (simp add: reg0)
  qed
  have dist: "distinct (parentMapData w x)" using c by (simp add: consistent_def)
  have loop: "(\<forall>c'\<in>set (parentMapData w x). \<forall>y\<in>subtree w c'.
            \<exists>b. FindBaseMap m4 y = Some b \<and> length (objects m0) \<le> b \<and> b < length (objects m4)) \<and>
         (\<forall>c'\<in>set (parentMapData w x). attached_within w (subtree w c') m4) \<and>
         (\<forall>c'\<in>set (parentMapData w x). \<exists>d. FindBaseMap m4 c' = Some d \<and> d \<in> set (kids m4 a))"
    by (rule add_children_attached [OF c cr _ ch [folded m0_def] subset_refl dist a0 pre])
       (rule Suc.IH; assumption)
  then have B1: "\<forall>c'\<in>set (parentMapData w x). \<forall>y\<in>subtree w c'.
            \<exists>b. FindBaseMap m4 y = Some b \<and> Suc a \<le> b \<and> b < length (objects m4)"
    and B2: "\<forall>c'\<in>set (parentMapData w x). attached_within w (subtree w c') m4"
    and B3: "\<forall>c'\<in>set (parentMapData w x). \<exists>d. FindBaseMap m4 c' = Some d \<and> d \<in> set (kids m4 a)"
    unfolding l0 by blast+
  have "\<forall>c'\<in>set (parentMapData w x). x \<notin> subtree w c'" using xnot by blast
  from add_children_unchanged [OF ch [folded m0_def] this]
  have x4: "FindBaseMap m4 x = Some a" by (simp add: reg0)
  have "children_added m0 a m4"
    by (rule add_children_added [OF _ ch [folded m0_def] a0]) (rule CreateBaseMap_i_created)
  from children_addedD(1) [OF this] have l4: "Suc a \<le> length (objects m4)" by (simp add: l0)
  have reg1: "FindBaseMap m1 = FindBaseMap m4" by (simp add: m1)
  have len1: "length (objects m1) = length (objects m4)" by (simp add: m1 length_objects_loaded)
  have A1: "\<forall>y\<in>subtree w x. \<exists>b. FindBaseMap m1 y = Some b \<and> a \<le> b \<and> b < length (objects m1) \<and>
        (y \<noteq> x \<longrightarrow> a < b)"
  proof
    fix y assume y: "y \<in> subtree w x"
    from subtree_cases [OF y]
    show "\<exists>b. FindBaseMap m1 y = Some b \<and> a \<le> b \<and> b < length (objects m1) \<and> (y \<noteq> x \<longrightarrow> a < b)"
    proof
      assume "y = x"
      with x4 l4 show ?thesis by (simp add: reg1 len1)
    next
      assume "\<exists>c'\<in>set (parentMapData w x). y \<in> subtree w c'"
      with B1 obtain b where "FindBaseMap m4 y = Some b" "Suc a \<le> b" "b < length (objects m4)"
        by blast
      then show ?thesis by (simp add: reg1 len1)
    qed
  qed
  have A2: "attached_within w (subtree w x) m1"
    unfolding attached_within_def
  proof (intro ballI)
    fix q c' assume q: "q \<in> subtree w x" and c': "c' \<in> set (parentMapData w q)"
    from subtree_cases [OF q]
    show "\<exists>p d. FindBaseMap m1 q = Some p \<and> FindBaseMap m1 c' = Some d \<and> d \<in> set (kids m1 p)"
    proof
      assume qx: "q = x"
      with B3 c' obtain d where "FindBaseMap m4 c' = Some d" "d \<in> set (kids m4 a)" by blast
      with x4 qx show ?thesis by (auto simp: reg1 m1)
    next
      assume "\<exists>c0\<in>set (parentMapData w x). q \<in> subtree w c0"
      then obtain c0 where c0: "c0 \<in> set (parentMapData w x)" "q \<in> subtree w c0" by blast
      with B2 have "attached_within w (subtree w c0) m4" by blast
      with c0(2) c' obtain p d where "FindBaseMap m4 q = Some p" "FindBaseMap m4 c' = Some d"
        "d \<in> set (kids m4 p)" unfolding attached_within_def by blast
      then show ?thesis by (auto simp: reg1 m1)
    qed
  qed
  from x4 A1 A2 show ?case unfolding subtree_created_def by (simp add: reg1)
qed

lemma registry_invD:
  assumes "registry_inv w m"
  shows "\<forall>x a. FindBaseMap m x = Some a \<longrightarrow> a < length (objects m)"
    and "\<forall>obj\<in>set (objects m). \<forall>c\<in>set (childTerrainMaps obj). c < length (objects m)"
    and "\<forall>x q. FindBaseMap m x \<noteq> None \<and> par w x = Some q \<longrightarrow> FindBaseMap m q \<noteq> None"
    and "\<forall>q p c. FindBaseMap m q = Some p \<and> c \<in> set (parentMapData w q) \<longrightarrow>
        (\<exists>d. FindBaseMap m c = Some d \<and> d \<in> set (childTerrainMaps (objects m ! p)))"
    and "\<forall>x a. FindBaseMap m x = Some a \<and> par w x \<noteq> None \<longrightarrow> attachments m a = 1"
  using assms unfolding registry_inv_def by blast+

lemma attachments_fresh:
  assumes "\<forall>obj\<in>set (objects m). \<forall>c\<in>set (childTerrainMaps obj). c < length (objects m)"
    and "length (objects m) \<le> b"
  shows "attachments m b = 0"
proof -
  have "count_list (childTerrainMaps obj) b = 0" if "obj \<in> set (objects m)" for obj
  proof -
    from assms that have "b \<notin> set (childTerrainMaps obj)" by fastforce
    then show ?thesis by (simp add: count_list_0_iff)
  qed
  then show ?thesis unfolding attachments_def by (simp add: sum_list_eq_0_iff)
qed

lemma CreateBaseMap_i_root_inv:
  assumes c: "consistent w" and inv: "registry_inv w m"
    and e: "LookupEntry w x = Some e" and root: "par w x = None"
    and unreg: "FindBaseMap m x = None"
    and cr: "CreateBaseMap_i w n e m = Some (Inr (a, m1))"
  shows "registry_inv w m1"
proof -
  note I = registry_invD [OF inv]
  have ide: "ID e = x" by (rule LookupEntry_ID [OF e])
  have pre: "\<forall>y\<in>subtree w x. FindBaseMap m y = None"
    using subtree_unregistered [OF c I(3) unreg] by (auto simp: subtree_def)
  from CreateBaseMap_i_subtree [OF c e pre cr] have
    s2: "\<forall>y\<in>subtree w x. \<exists>b. FindBaseMap m1 y = Some b \<and> a \<le> b \<and> b < length (objects m1) \<and>
        (y \<noteq> x \<longrightarrow> a < b)"
    and s3: "attached_within w (subtree w x) m1"
    unfolding subtree_created_def by blast+
  note cb = created_belowD [OF CreateBaseMap_i_created [OF cr]]
  have aL: "a = length (objects m)" by (rule cb(1))
  have L: "length (objects m) < length (objects m1)" by (rule cb(2))
  have same: "FindBaseMap m1 y = FindBaseMap m y" if "y \<notin> subtree w x" for y
    using CreateBaseMap_i_unchanged [OF cr] that by (simp add: ide)
  have old: "y \<notin> subtree w x" if "FindBaseMap m y \<noteq> None" for y
    using pre that by auto
  have J1: "\<forall>y b. FindBaseMap m1 y = Some b \<longrightarrow> b < length (objects m1)"
  proof (intro allI impI)
    fix y b assume yb: "FindBaseMap m1 y = Some b"
    show "b < length (objects m1)"
    proof (cases "y \<in> subtree w x")
      case True
      with s2 obtain b' where "FindBaseMap m1 y = Some b'" "b' < length (objects m1)" by blast
      with yb show ?thesis by simp
    next
      case False
      with same yb have "FindBaseMap m y = Some b" by simp
      with I(1) have "b < length (objects m)" by blast
      with L show ?thesis by simp
    qed
  qed
  have J2: "\<forall>obj\<in>set (objects m1). \<forall>k\<in>set (childTerrainMaps obj). k < length (objects m1)"
  proof (intro ballI)
    fix obj k assume obj: "obj \<in> set (objects m1)" and k: "k \<in> set (childTerrainMaps obj)"
    from obj obtain i where i: "i < length (objects m1)" "obj = objects m1 ! i"
      by (auto simp: in_set_conv_nth)
    show "k < length (objects m1)"
    proof (cases "i < length (objects m)")
      case True
      with cb(3) i have "obj = objects m ! i" by simp
      with True have "obj \<in> set (objects m)" by simp
      with I(2) k have "k < length (objects m)" by blast
      with L show ?thesis by simp
    next
      case False
      with i have "length (objects m) \<le> i \<and> i < length (objects m1)" by simp
      with cb(4) have "\<forall>c\<in>set (kids m1 i). i < c \<and> c < length (objects m1)" by blast
      with k i show ?thesis by (simp add: kids_def)
    qed
  qed
  have J3: "\<forall>y q. FindBaseMap m1 y \<noteq> None \<and> par w y = Some q \<longrightarrow> FindBaseMap m1 q \<noteq> None"
  proof (intro allI impI)
    fix y q assume yq: "FindBaseMap m1 y \<noteq> None \<and> par w y = Some q"
    show "FindBaseMap m1 q \<noteq> None"
    proof (cases "y \<in> subtree w x")
      case True
      from yq root have "y \<noteq> x" by auto
      from subtree_up_closed [OF c True this] yq have "q \<in> subtree w x" by auto
      with s2 obtain b' where "FindBaseMap m1 q = Some b'" by blast
      then show ?thesis by simp
    next
      case False
      with same yq have "FindBaseMap m y \<noteq> None" by simp
      with I(3) yq have q: "FindBaseMap m q \<noteq> None" by blast
      from same [OF old [OF q]] q show ?thesis by simp
    qed
  qed
  have J4: "\<forall>q p k. FindBaseMap m1 q = Some p \<and> k \<in> set (parentMapData w q) \<longrightarrow>
        (\<exists>d. FindBaseMap m1 k = Some d \<and> d \<in> set (childTerrainMaps (objects m1 ! p)))"
  proof (intro allI impI)
    fix q p k assume qp: "FindBaseMap m1 q = Some p \<and> k \<in> set (parentMapData w q)"
    show "\<exists>d. FindBaseMap m1 k = Some d \<and> d \<in> set (childTerrainMaps (objects m1 ! p))"
    proof (cases "q \<in> subtree w x")
      case True
      with s3 qp obtain p' d where "FindBaseMap m1 q = Some p'" "FindBaseMap m1 k = Some d"
        "d \<in> set (kids m1 p')" unfolding attached_within_def by blast
      with qp show ?thesis by (auto simp: kids_def)
    next
      case False
      with same qp have q: "FindBaseMap m q = Some p" by simp
      with I(4) qp obtain d where d: "FindBaseMap m k = Some d"
        "d \<in> set (childTerrainMaps (objects m ! p))" by blast
      from d(1) have "FindBaseMap m k \<noteq> None" by simp
      from same [OF old [OF this]] d(1) have k1: "FindBaseMap m1 k = Some d" by simp
      from I(1) q have "p < length (objects m)" by blast
      with cb(3) have "objects m1 ! p = objects m ! p" by simp
      with d(2) k1 show ?thesis by simp
    qed
  qed
  have J5: "\<forall>y b. FindBaseMap m1 y = Some b \<and> par w y \<noteq> None \<longrightarrow> attachments m1 b = 1"
  proof (intro allI impI)
    fix y b assume yb: "FindBaseMap m1 y = Some b \<and> par w y \<noteq> None"
    have att: "attachments m1 b = attachments m b +
        (if length (objects m) < b \<and> b < length (objects m1) then 1 else 0)"
      using cb(5) by blast
    show "attachments m1 b = 1"
    proof (cases "y \<in> subtree w x")
      case True
      from yb root have "y \<noteq> x" by auto
      from s2 True obtain b' where b': "FindBaseMap m1 y = Some b'" "b' < length (objects m1)"
        "y \<noteq> x \<longrightarrow> a < b'" by blast
      with yb \<open>y \<noteq> x\<close> have b: "a < b" "b < length (objects m1)" by simp_all
      from b(1) have "length (objects m) \<le> b" by (simp add: aL)
      from attachments_fresh [OF I(2) this] att b show ?thesis by (simp add: aL)
    next
      case False
      with same yb have y: "FindBaseMap m y = Some b" by simp
      with I(5) yb have "attachments m b = 1" by blast
      moreover from I(1) y have "b < length (objects m)" by blast
      ultimately show ?thesis using att by simp
    qed
  qed
  show ?thesis unfolding registry_inv_def using J1 J2 J3 J4 J5 by blast
qed

lemma par_parent_of: "LookupEntry w x = Some e \<Longrightarrow> par w x = parent_of e"
  by (simp add: par_def)

lemma CreateBaseMap_inv:
  assumes c: "consistent w"
  shows "registry_inv w m \<Longrightarrow> CreateBaseMap w n x m = Some (Inr (a, m1)) \<Longrightarrow> registry_inv w m1"
proof (induction n arbitrary: x a m1)
  case 0
  then show ?case by simp
next
  case (Suc n)
  show ?case
  proof (cases "FindBaseMap m x")
    case (Some b)
    with Suc.prems show ?thesis by simp
  next
    case None
    with Suc.prems(2) obtain e where e: "LookupEntry w x = Some e"
      by (auto simp: AssertEntry_def split: option.splits)
    show ?thesis
    proof (cases "parent_of e")
      case (Some p)
      with Suc.prems(2) None e obtain a' where "CreateBaseMap w n p m = Some (Inr (a', m1))"
        by (auto simp: AssertEntry_def split: option.splits sum.splits)
      from Suc.IH [OF Suc.prems(1) this] show ?thesis .
    next
      case N: None
      with Suc.prems(2) None e have cr: "CreateBaseMap_i w n e m = Some (Inr (a, m1))"
        by (simp add: AssertEntry_def)
      have "par w x = None" using par_parent_of [OF e] N by simp
      from CreateBaseMap_i_root_inv [OF c Suc.prems(1) e this None cr] show ?thesis .
    qed
  qed
qed

lemma registry_inv_empty: "registry_inv w empty_manager"
  by (simp add: registry_inv_def empty_manager_def FindBaseMap_def)

lemma add_children_fuel:
  assumes IH: "\<And>e m r. CreateBaseMap_i w n e m = Some r \<Longrightarrow> CreateBaseMap_i w (Suc n) e m = Some r"
  shows "add_children w n a cs m = Some r \<Longrightarrow> add_children w (Suc n) a cs m = Some r"
proof (induction cs arbitrary: m)
  case Nil
  then show ?case by simp
next
  case (Cons c cs)
  show ?case
  proof (cases "AssertEntry w c")
    case (Inl err)
    with Cons.prems show ?thesis by simp
  next
    case (Inr e)
    show ?thesis
    proof (cases "CreateBaseMap_i w n e m")
      case None
      with Cons.prems Inr show ?thesis by simp
    next
      case (Some r1)
      from IH [OF Some] have s: "CreateBaseMap_i w (Suc n) e m = Some r1" .
      show ?thesis
      proof (cases r1)
        case (Inl err)
        with Cons.prems Inr Some s show ?thesis by (simp del: CreateBaseMap_i.simps)
      next
        case R: (Inr p)
        obtain ch m1 where p: "p = (ch, m1)" by (cases p)
        from Cons.prems Inr Some R p
        have "add_children w n a cs (AddChildTerrainMap a ch m1) = Some r" by simp
        from Cons.IH [OF this] Inr s R p show ?thesis by (simp del: CreateBaseMap_i.simps)
      qed
    qed
  qed
qed

lemma CreateBaseMap_i_fuel:
  "CreateBaseMap_i w n e m = Some r \<Longrightarrow> CreateBaseMap_i w (Suc n) e m = Some r"
proof (induction n arbitrary: e m r)
  case 0
  then show ?case by simp
next
  case (Suc n)
  let ?cs = "parentMapData w (ID e)"
  let ?a = "length (objects m)"
  from Suc.prems obtain r4 where r4: "add_children w n ?a ?cs (installed e m) = Some r4"
    unfolding CreateBaseMap_i_Suc by (auto split: option.splits)
  have "add_children w (Suc n) ?a ?cs (installed e m) = Some r4"
    by (rule add_children_fuel [OF _ r4]) (rule Suc.IH)
  with r4 Suc.prems show ?case
    unfolding CreateBaseMap_i_Suc [of w "Suc n"] CreateBaseMap_i_Suc [of w n] by simp
qed

lemma CreateBaseMap_fuel:
  "CreateBaseMap w n x m = Some r \<Longrightarrow> CreateBaseMap w (Suc n) x m = Some r"
proof (induction n arbitrary: x r)
  case 0
  then show ?case by simp
next
  case (Suc n)
  show ?case
  proof (cases "FindBaseMap m x")
    case (Some b)
    with Suc.prems show ?thesis by simp
  next
    case None
    show ?thesis
    proof (cases "AssertEntry w x")
      case (Inl err)
      with Suc.prems None show ?thesis by simp
    next
      case (Inr e)
      show ?thesis
      proof (cases "parent_of e")
        case N: None
        with Suc.prems None Inr have "CreateBaseMap_i w n e m = Some r" by simp
        from CreateBaseMap_i_fuel [OF this] None Inr N show ?thesis
          by (simp del: CreateBaseMap_i.simps)
      next
        case (Some p)
        from Suc.prems None Inr Some obtain r1 where r1: "CreateBaseMap w n p m = Some r1"
          by (auto split: option.splits)
        from Suc.IH [OF r1] have "CreateBaseMap w (Suc n) p m = Some r1" .
        with r1 Suc.prems None Inr Some show ?thesis
          by (simp del: CreateBaseMap.simps add: CreateBaseMap.simps(2) [of w "Suc n"]
              CreateBaseMap.simps(2) [of w n])
      qed
    qed
  qed
qed

lemma CreateBaseMap_more_fuel:
  "CreateBaseMap w n x m = Some r \<Longrightarrow> n \<le> k \<Longrightarrow> CreateBaseMap w k x m = Some r"
proof (induction k)
  case 0
  then show ?case by simp
next
  case (Suc k)
  show ?case
  proof (cases "n = Suc k")
    case True
    with Suc.prems show ?thesis by simp
  next
    case False
    with Suc.prems have "n \<le> k" by simp
    from CreateBaseMap_fuel [OF Suc.IH [OF Suc.prems(1) this]] show ?thesis .
  qed
qed

lemma CreateBaseMap_i_more_fuel:
  "CreateBaseMap_i w n e m = Some r \<Longrightarrow> n \<le> k \<Longrightarrow> CreateBaseMap_i w k e m = Some r"
proof (induction k)
  case 0
  then show ?case by simp
next
  case (Suc k)
  show ?case
  proof (cases "n = Suc k")
    case True
    with Suc.prems show ?thesis by simp
  next
    case False
    with Suc.prems have "n \<le> k" by simp
    from CreateBaseMap_i_fuel [OF Suc.IH [OF Suc.prems(1) this]] show ?thesis .
  qed
qed

lemma add_children_returns:
  assumes IH: "\<And>c m. c \<in> set cs \<Longrightarrow>
      \<exists>e a m1. LookupEntry w c = Some e \<and> CreateBaseMap_i w n e m = Some (Inr (a, m1))"
  shows "\<exists>m'. add_children w n a cs m = Some (Inr m')"
  using IH
proof (induction cs arbitrary: m)
  case Nil
  then show ?case by simp
next
  case (Cons c cs)
  from Cons.prems [of c m] obtain e ch m1 where e: "LookupEntry w c = Some e"
    and cr: "CreateBaseMap_i w n e m = Some (Inr (ch, m1))" by auto
  have "\<exists>m'. add_children w n a cs (AddChildTerrainMap a ch m1) = Some (Inr m')"
    by (rule Cons.IH) (rule Cons.prems, simp)
  with e cr show ?case by (simp add: AssertEntry_def del: CreateBaseMap_i.simps)
qed

lemma CreateBaseMap_i_returns:
  assumes c: "consistent w" and r: "ranked w h H"
  shows "LookupEntry w x = Some e \<Longrightarrow> \<exists>a m1. CreateBaseMap_i w (Suc (h x)) e m = Some (Inr (a, m1))"
proof (induction "h x" arbitrary: x e m rule: less_induct)
  case less
  have ide: "ID e = x" by (rule LookupEntry_ID [OF less.prems])
  have "\<exists>m'. add_children w (h x) (length (objects m)) (parentMapData w x) (installed e m) = Some (Inr m')"
  proof (rule add_children_returns)
    fix c m' assume cx: "c \<in> set (parentMapData w x)"
    with r have lt: "h c < h x" by (simp add: ranked_def)
    from c cx have "par w c = Some x" by (simp add: consistent_def)
    then obtain ce where ce: "LookupEntry w c = Some ce" by (auto simp: par_def split: option.splits)
    from less.hyps [OF lt ce] obtain a m1 where
      "CreateBaseMap_i w (Suc (h c)) ce m' = Some (Inr (a, m1))" by blast
    from CreateBaseMap_i_more_fuel [OF this] lt
    have "CreateBaseMap_i w (h x) ce m' = Some (Inr (a, m1))" by simp
    with ce show "\<exists>e a m1. LookupEntry w c = Some e \<and> CreateBaseMap_i w (h x) e m' = Some (Inr (a, m1))"
      by blast
  qed
  then show ?case unfolding CreateBaseMap_i_Suc ide by auto
qed

lemma CreateBaseMap_returns_aux:
  assumes c: "consistent w" and r: "ranked w h H" and inv: "registry_inv w m"
  shows "LookupEntry w x \<noteq> None \<Longrightarrow> H - h x = j \<Longrightarrow>
           \<exists>a m1. CreateBaseMap w (Suc j + Suc H) x m = Some (Inr (a, m1))"
proof (induction j arbitrary: x rule: less_induct)
  case (less j)
  from less.prems(1) obtain e where e: "LookupEntry w x = Some e" by auto
  have hx: "h x \<le> H" using r by (simp add: ranked_def)
  show ?case
  proof (cases "FindBaseMap m x")
    case (Some b)
    then show ?thesis by simp
  next
    case None
    show ?thesis
    proof (cases "parent_of e")
      case N: None
      from CreateBaseMap_i_returns [OF c r e] obtain a m1 where
        "CreateBaseMap_i w (Suc (h x)) e m = Some (Inr (a, m1))" by blast
      from CreateBaseMap_i_more_fuel [OF this, of "j + Suc H"] hx
      have "CreateBaseMap_i w (j + Suc H) e m = Some (Inr (a, m1))" by simp
      with None e N show ?thesis by (simp add: AssertEntry_def del: CreateBaseMap_i.simps)
    next
      case (Some p)
      then have px: "par w x = Some p" using e by (simp add: par_def)
      with c have xp: "x \<in> set (parentMapData w p)" by (simp add: consistent_def)
      with r have lt: "h x < h p" by (simp add: ranked_def)
      have hp: "h p \<le> H" using r by (simp add: ranked_def)
      from lt hp less.prems(2) have jj: "H - h p < j" by simp
      have pe: "LookupEntry w p \<noteq> None" using r px unfolding ranked_def by blast
      from less.IH [OF jj pe refl] obtain a' m1 where
        "CreateBaseMap w (Suc (H - h p) + Suc H) p m = Some (Inr (a', m1))" by blast
      from CreateBaseMap_more_fuel [OF this, of "j + Suc H"] jj
      have cp: "CreateBaseMap w (j + Suc H) p m = Some (Inr (a', m1))" by simp
      have "registry_inv w m1" by (rule CreateBaseMap_inv [OF c inv cp])
      note I = registry_invD [OF this]
      have "FindBaseMap m1 p = Some a'" by (rule CreateBaseMap_registered [OF cp])
      with I(4) xp obtain d where "FindBaseMap m1 x = Some d" by blast
      then have x1: "FindBaseMap m1 x = Some d" .
      from cp have cp': "CreateBaseMap w (Suc (j + H)) p m = Some (Inr (a', m1))" by simp
      have "CreateBaseMap w (Suc (j + Suc H)) x m = Some (Inr (d, m1))"
        by (subst CreateBaseMap.simps(2)) (simp add: None e Some cp' x1 AssertEntry_def
            del: CreateBaseMap.simps)
      then show ?thesis by simp
    qed
  qed
qed

lemma CreateBaseMap_returns:
  assumes "consistent w" and "ranked w h H" and "registry_inv w m" and "LookupEntry w x \<noteq> None"
  shows "\<exists>a m1. CreateBaseMap w (Suc (H - h x) + Suc H) x m = Some (Inr (a, m1))"
  by (rule CreateBaseMap_returns_aux [OF assms refl])

lemma example_par:
  "par example_world mapid = (if mapid = 2 \<or> mapid = 3 then Some 1 else None)"
  by (simp add: par_def LookupEntry_def parent_of_def example_defs)

lemma example_consistent: "consistent example_world"
  unfolding consistent_def example_par by (simp add: example_world_def)

lemma example_create_2:
  "CreateBaseMap example_world (Suc (Suc (Suc (Suc 0)))) 2 empty_manager =
     Some (Inr (1, example_created))"
  by (simp add: FindBaseMap_def AssertEntry_def LookupEntry_def parent_of_def new_Map_def
      DiscoverGridMapFiles_def AddChildTerrainMap_def LoadRespawnTimes_def LoadCorpseData_def
      example_created_def example_defs Let_def)

lemma example_ranked: "ranked example_world example_rank 1"
  unfolding ranked_def example_par
  by (simp add: example_rank_def example_world_def LookupEntry_def example_continent_def)

lemma child_map_created:
  assumes c: "consistent w" and inv: "registry_inv w m"
    and par: "par w D = Some P"
    and cr: "CreateBaseMap w n D m = Some (Inr (d, m1))"
  shows "\<exists>p. CreateBaseMap w n P m = Some (Inr (p, m1)) \<and>
             (FindBaseMap m D = None \<longrightarrow> 0 < n \<and> CreateBaseMap w (n - 1) P m = Some (Inr (p, m1))) \<and>
             FindBaseMap m1 P = Some p \<and> FindBaseMap m1 D = Some d \<and>
             d \<in> set (childTerrainMaps (objects m1 ! p)) \<and> attachments m1 d = 1 \<and>
             CreateBaseMap w (Suc j) P m1 = Some (Inr (p, m1)) \<and>
             CreateBaseMap w (Suc j) D m1 = Some (Inr (d, m1)) \<and>
             registry_inv w m1"
proof -
  have inv1: "registry_inv w m1" by (rule CreateBaseMap_inv [OF c inv cr])
  note I = registry_invD [OF inv1]
  have d1: "FindBaseMap m1 D = Some d" by (rule CreateBaseMap_registered [OF cr])
  with I(3) par obtain p where p1: "FindBaseMap m1 P = Some p" by blast
  have "D \<in> set (parentMapData w P)" using c par by (simp add: consistent_def)
  with I(4) p1 d1 have att: "d \<in> set (childTerrainMaps (objects m1 ! p))" by fastforce
  from I(5) d1 par have once: "attachments m1 d = 1" by fastforce
  from cr obtain n' where n: "n = Suc n'" by (cases n) auto
  from par obtain e where e: "LookupEntry w D = Some e" "parent_of e = Some P"
    by (auto simp: par_def split: option.splits)
  have first: "CreateBaseMap w n P m = Some (Inr (p, m1)) \<and>
      (FindBaseMap m D = None \<longrightarrow> 0 < n \<and> CreateBaseMap w (n - 1) P m = Some (Inr (p, m1)))"
  proof (cases "FindBaseMap m D")
    case None
    with cr n e obtain p' where p': "CreateBaseMap w n' P m = Some (Inr (p', m1))"
      by (auto simp: AssertEntry_def split: option.splits sum.splits)
    from CreateBaseMap_registered [OF this] p1 have "p' = p" by simp
    with p' have p'': "CreateBaseMap w n' P m = Some (Inr (p, m1))" by simp
    from CreateBaseMap_fuel [OF this] p'' n show ?thesis by simp
  next
    case (Some d')
    with cr n have m1: "m1 = m" by simp
    with p1 n have "CreateBaseMap w n P m = Some (Inr (p, m1))" by simp
    with Some show ?thesis by simp
  qed
  have again: "CreateBaseMap w (Suc j) P m1 = Some (Inr (p, m1))"
    "CreateBaseMap w (Suc j) D m1 = Some (Inr (d, m1))"
    using p1 d1 by simp_all
  show ?thesis
    by (rule exI [of _ p]) (use first p1 d1 att once again inv1 in simp)
qed

text \<open>
  Claim C8. Let the child lists agree with the map store, let the registry fit the
  hierarchy (the empty registry does, and \<open>CreateBaseMap\<close> keeps it so), and let \<open>D\<close>
  declare the parent \<open>P\<close>. Whenever \<open>CreateBaseMap\<close> returns an object \<open>d\<close> for \<open>D\<close>: the
  call for \<open>P\<close> from the same state returns with the same end state, and when \<open>D\<close> was not
  registered the call for \<open>D\<close> has made that call for \<open>P\<close>, so \<open>D\<close> is not created as a
  root; \<open>d\<close> is the registry's object for \<open>D\<close>, it is among the child terrain maps of the
  registry's object for \<open>P\<close> and it is attached exactly once; in the end state both calls,
  in either order, return these objects and change nothing. When the hierarchy is finite
  and the parents exist, the call for \<open>D\<close> does return.
\<close>

theorem child_map_is_created_by_parent:
  assumes "consistent w" and "registry_inv w m" and "par w D = Some P"
  shows "(\<forall>n d m1. CreateBaseMap w n D m = Some (Inr (d, m1)) \<longrightarrow>
            (\<exists>p. CreateBaseMap w n P m = Some (Inr (p, m1)) \<and>
                 (FindBaseMap m D = None \<longrightarrow>
                    0 < n \<and> CreateBaseMap w (n - 1) P m = Some (Inr (p, m1))) \<and>
                 FindBaseMap m1 P = Some p \<and> FindBaseMap m1 D = Some d \<and>
                 d \<in> set (childTerrainMaps (objects m1 ! p)) \<and> attachments m1 d = 1 \<and>
                 (\<forall>j. CreateBaseMap w (Suc j) P m1 = Some (Inr (p, m1)) \<and>
                      CreateBaseMap w (Suc j) D m1 = Some (Inr (d, m1))) \<and>
                 registry_inv w m1)) \<and>
         (\<forall>h H. ranked w h H \<longrightarrow>
            (\<exists>d m1. CreateBaseMap w (Suc (H - h D) + Suc H) D m = Some (Inr (d, m1))))"
proof (intro conjI allI impI)
  fix n d m1 assume cr: "CreateBaseMap w n D m = Some (Inr (d, m1))"
  from child_map_created [OF assms cr, of 0] obtain p where
    p: "CreateBaseMap w n P m = Some (Inr (p, m1))"
      "FindBaseMap m D = None \<longrightarrow> 0 < n \<and> CreateBaseMap w (n - 1) P m = Some (Inr (p, m1))"
      "FindBaseMap m1 P = Some p" "FindBaseMap m1 D = Some d"
      "d \<in> set (childTerrainMaps (objects m1 ! p))" "attachments m1 d = 1"
      "registry_inv w m1"
    by (elim exE conjE) simp
  have "\<forall>j. CreateBaseMap w (Suc j) P m1 = Some (Inr (p, m1)) \<and>
            CreateBaseMap w (Suc j) D m1 = Some (Inr (d, m1))"
    using p(3,4) by simp
  with p show "\<exists>p. CreateBaseMap w n P m = Some (Inr (p, m1)) \<and>
                 (FindBaseMap m D = None \<longrightarrow>
                    0 < n \<and> CreateBaseMap w (n - 1) P m = Some (Inr (p, m1))) \<and>
                 FindBaseMap m1 P = Some p \<and> FindBaseMap m1 D = Some d \<and>
                 d \<in> set (childTerrainMaps (objects m1 ! p)) \<and> attachments m1 d = 1 \<and>
                 (\<forall>j. CreateBaseMap w (Suc j) P m1 = Some (Inr (p, m1)) \<and>
                      CreateBaseMap w (Suc j) D m1 = Some (Inr (d, m1))) \<and>
                 registry_inv w m1"
    by (intro exI [of _ p]) simp
next
  fix h H assume r: "ranked w h H"
  from assms(3) have "LookupEntry w D \<noteq> None" by (auto simp: par_def split: option.splits)
  from CreateBaseMap_returns [OF assms(1) r assms(2) this]
  show "\<exists>d m1. CreateBaseMap w (Suc (H - h D) + Suc H) D m = Some (Inr (d, m1))" .
qed

text \<open>
  Claim C8, witness: creating map 2 (child of map 1) from the empty registry, and map 1
  first.
\<close>

theorem child_map_is_created_by_parent_witness:
  "consistent example_world \<and> registry_inv example_world empty_manager \<and>
   par example_world 2 = Some 1 \<and> ranked example_world example_rank 1 \<and>
   CreateBaseMap example_world (Suc (Suc (Suc (Suc 0)))) 2 empty_manager =
     Some (Inr (1, example_created)) \<and>
   CreateBaseMap example_world (Suc (Suc (Suc (Suc 0)))) 1 empty_manager =
     Some (Inr (0, example_created)) \<and>
   FindBaseMap example_created 1 = Some 0 \<and> FindBaseMap example_created 2 = Some 1 \<and>
   1 \<in> set (childTerrainMaps (objects example_created ! 0)) \<and>
   attachments example_created 1 = 1 \<and>
   CreateBaseMap example_world (Suc 0) 1 example_created = Some (Inr (0, example_created)) \<and>
   CreateBaseMap example_world (Suc 0) 2 example_created = Some (Inr (1, example_created)) \<and>
   (\<exists>d m1. CreateBaseMap example_world (Suc (1 - example_rank 2) + Suc 1) 2 empty_manager =
      Some (Inr (d, m1)))"
proof -
  have p: "par example_world 2 = Some 1" by (simp add: example_par)
  note t = child_map_is_created_by_parent [OF example_consistent registry_inv_empty p]
  from t example_ranked
  have tot: "\<exists>d m1. CreateBaseMap example_world (Suc (1 - example_rank 2) + Suc 1) 2 empty_manager =
      Some (Inr (d, m1))" by blast
  from t example_create_2 obtain p' where b: "
      CreateBaseMap example_world (Suc (Suc (Suc (Suc 0)))) 1 empty_manager =
        Some (Inr (p', example_created)) \<and>
      FindBaseMap example_created 1 = Some p' \<and>
      FindBaseMap example_created 2 = Some 1 \<and>
      1 \<in> set (childTerrainMaps (objects example_created ! p')) \<and>
      attachments example_created 1 = 1 \<and>
      (\<forall>j. CreateBaseMap example_world (Suc j) 1 example_created = Some (Inr (p', example_created)) \<and>
           CreateBaseMap example_world (Suc j) 2 example_created = Some (Inr (1, example_created)))"
    by blast
  have "FindBaseMap example_created 1 = Some 0" by (simp add: FindBaseMap_def example_created_def)
  with b have p0: "p' = 0" by simp
  from example_consistent registry_inv_empty p example_ranked b [unfolded p0]
    example_create_2 tot
  show ?thesis by simp
qed

text \<open>
  Claim C9. When \<open>CreateBaseMap\<close> has returned an object for an id, a second call for the
  same id (with any positive depth bound) returns the same object and leaves the manager,
  registry and objects, as it is. The first call does return for every id of the map
  store when the child lists agree with the store, the hierarchy is finite, the parents
  exist and the registry fits the hierarchy.
\<close>

theorem CreateBaseMap_idempotent:
  "(CreateBaseMap w n mapid m = Some (Inr (a, m1)) \<longrightarrow>
      (\<forall>k. CreateBaseMap w (Suc k) mapid m1 = Some (Inr (a, m1)))) \<and>
   (consistent w \<and> ranked w h H \<and> registry_inv w m \<and> LookupEntry w mapid \<noteq> None \<longrightarrow>
      (\<exists>a m1. CreateBaseMap w (Suc (H - h mapid) + Suc H) mapid m = Some (Inr (a, m1))))"
proof (intro conjI impI allI)
  fix k assume "CreateBaseMap w n mapid m = Some (Inr (a, m1))"
  from CreateBaseMap_registered [OF this]
  show "CreateBaseMap w (Suc k) mapid m1 = Some (Inr (a, m1))" by simp
next
  assume "consistent w \<and> ranked w h H \<and> registry_inv w m \<and> LookupEntry w mapid \<noteq> None"
  then show "\<exists>a m1. CreateBaseMap w (Suc (H - h mapid) + Suc H) mapid m = Some (Inr (a, m1))"
    using CreateBaseMap_returns by blast
qed

text \<open>
Claim C9, witness: map 1 with its children 2 and 3.
\<close>

theorem CreateBaseMap_idempotent_witness:
  "CreateBaseMap example_world (Suc (Suc (Suc 0))) 1 empty_manager = Some (Inr (0, example_created)) \<and>
   CreateBaseMap example_world (Suc (Suc (Suc 0))) 1 example_created = Some (Inr (0, example_created)) \<and>
   consistent example_world \<and> ranked example_world example_rank 1 \<and>
   registry_inv example_world empty_manager \<and> LookupEntry example_world 1 \<noteq> None \<and>
   (\<exists>a m1. CreateBaseMap example_world (Suc (1 - example_rank 1) + Suc 1) 1 empty_manager =
      Some (Inr (a, m1)))"
proof -
  note t = CreateBaseMap_idempotent [of example_world "Suc (Suc (Suc 0))" 1 empty_manager 0
      example_created example_rank 1]
  from t example_create_1
  have x: "CreateBaseMap example_world (Suc (Suc (Suc 0))) 1 example_created = Some (Inr (0, example_created))"
    by blast
  have l: "LookupEntry example_world 1 \<noteq> None" by (simp add: LookupEntry_def example_defs)
  from t example_consistent example_ranked registry_inv_empty l
  have y: "\<exists>a m1. CreateBaseMap example_world (Suc (1 - example_rank 1) + Suc 1) 1 empty_manager =
      Some (Inr (a, m1))" by blast
  from x y l example_create_1 example_consistent example_ranked registry_inv_empty
  show ?thesis by blast
qed

subsection \<open>The allocator: the bound on the table size\<close>

lemma table_limit_pos: "0 < table_limit"
  by (simp add: table_limit_def)

lemma replicate_update_0: "0 < n \<Longrightarrow> (replicate n x)[0 := y] = y # replicate (n - 1) x"
  by (cases n) simp_all

lemma Init_registered_up_to:
  "InitInstanceIds (Some 0xFFFFFFFE) MapManager_alloc = Inr (registered_up_to 0)"
proof -
  have n: "unat ((0xFFFFFFFE :: u64) + 2) = table_limit" by (simp add: table_limit_def)
  have r: "resize table_limit True [] = replicate table_limit True" by (simp add: resize_def)
  have u: "(replicate table_limit True)[0 := False] = False # replicate (table_limit - 1) True"
    by (rule replicate_update_0 [OF table_limit_pos])
  have "InitInstanceIds (Some 0xFFFFFFFE) MapManager_alloc =
      Inr \<lparr>nextInstanceId = 1, freeInstanceIds = False # replicate (table_limit - 1) True\<rparr>"
    unfolding InitInstanceIds_def MapManager_alloc_def Let_def option.case n allocator.simps r u
    using table_limit_pos by simp
  then show ?thesis by (simp add: registered_up_to_def)
qed

lemma Register_registered_up_to:
  assumes "Suc k < table_limit"
  shows "RegisterInstanceId (of_nat (Suc k)) (registered_up_to k) = Inr (registered_up_to (Suc k))"
proof -
  have u: "unat (of_nat (Suc k) :: u32) = Suc k"
    using assms by (intro unat_of_nat32) (simp add: table_limit_def)
  have l: "length (freeInstanceIds (registered_up_to k)) = table_limit"
    using assms by (simp add: registered_up_to_def)
  have pos: "0 < table_limit - Suc k" using assms by simp
  have "(replicate (Suc k) False @ replicate (table_limit - Suc k) True)[Suc k := False] =
        replicate (Suc k) False @ (replicate (table_limit - Suc k) True)[0 := False]"
    by (simp add: list_update_append del: replicate.simps)
  also have "\<dots> = replicate (Suc k) False @ False # replicate (table_limit - Suc (Suc k)) True"
    using pos by (simp add: replicate_update_0 del: replicate.simps)
  also have "\<dots> = replicate (Suc (Suc k)) False @ replicate (table_limit - Suc (Suc k)) True"
    by (simp add: replicate_app_Cons_same)
  finally have upd: "(freeInstanceIds (registered_up_to k))[Suc k := False] =
      freeInstanceIds (registered_up_to (Suc k))"
    by (simp add: registered_up_to_def del: replicate.simps)
  have nx: "nextInstanceId (registered_up_to k) = of_nat (Suc k)"
    "nextInstanceId (registered_up_to (Suc k)) = of_nat (Suc k) + 1"
    by (simp_all add: registered_up_to_def)
  have "RegisterInstanceId (of_nat (Suc k)) (registered_up_to k) =
      Inr \<lparr>nextInstanceId = of_nat (Suc k) + 1,
           freeInstanceIds = freeInstanceIds (registered_up_to (Suc k))\<rparr>"
    unfolding RegisterInstanceId_def u l Let_def upd nx using assms by simp
  also have "\<lparr>nextInstanceId = of_nat (Suc k) + 1,
           freeInstanceIds = freeInstanceIds (registered_up_to (Suc k))\<rparr> = registered_up_to (Suc k)"
    using nx(2) by (cases "registered_up_to (Suc k)") simp
  finally show ?thesis .
qed

lemma replay_append:
  "replay (xs @ ys) s = (case replay xs s of Inl e \<Rightarrow> Inl e | Inr s' \<Rightarrow> replay ys s')"
  by (induction xs arbitrary: s) (auto split: sum.splits)

lemma replay_registered_up_to:
  "Suc k \<le> table_limit \<Longrightarrow>
     replay (map of_nat [Suc 0..<Suc k]) (registered_up_to 0) = Inr (registered_up_to k)"
proof (induction k)
  case 0
  then show ?case by simp
next
  case (Suc k)
  then have "replay (map of_nat [Suc 0..<Suc k]) (registered_up_to 0) = Inr (registered_up_to k)"
    by simp
  moreover have "RegisterInstanceId (of_nat (Suc k)) (registered_up_to k) = Inr (registered_up_to (Suc k))"
    using Suc.prems by (intro Register_registered_up_to) simp
  ultimately show ?case by (simp add: replay_append del: of_nat_Suc)
qed

lemma allocations_Reserve:
  "replay ids s = Inr s' \<Longrightarrow> allocations (map Reserve ids @ ops) s = allocations ops s'"
  by (induction ids arbitrary: s) (auto split: sum.splits)

lemma Generate_at_zero:
  assumes "nextInstanceId s = 0" and "0 < length (freeInstanceIds s)"
  shows "\<exists>s'. GenerateInstanceId s = Inr (0, s')"
  using assms by (simp add: GenerateInstanceId_def Let_def split: option.splits)

text \<open>
  Without the bound on the size of the table a run that never releases the identifier 0
  can still hand it out: registering the id \<open>0xFFFFFFFF\<close> while the cursor stands on it
  wraps the cursor to 0.
\<close>

lemma wrapping_run_returns_zero:
  "Release 0 \<notin> set wrapping_run \<and> 0 \<in> set (allocations wrapping_run MapManager_alloc)"
proof -
  obtain k where k: "table_limit = Suc k" using table_limit_pos by (cases table_limit) auto
  have r: "replay (map of_nat [Suc 0..<table_limit]) (registered_up_to 0) = Inr (registered_up_to k)"
    unfolding k by (rule replay_registered_up_to) (simp add: k)
  have "of_nat table_limit = (0 :: u32)" by (simp add: table_limit_def)
  then have nz: "nextInstanceId (registered_up_to k) = 0" by (simp add: registered_up_to_def k)
  have "0 < length (freeInstanceIds (registered_up_to k))" by (simp add: registered_up_to_def)
  from Generate_at_zero [OF nz this] obtain s' where
    g: "GenerateInstanceId (registered_up_to k) = Inr (0, s')" by blast
  have m: "map (\<lambda>i. Reserve (of_nat i)) [Suc 0..<table_limit] = map Reserve (map of_nat [Suc 0..<table_limit])"
    by simp
  have "allocations wrapping_run MapManager_alloc = allocations [Allocate] (registered_up_to k)"
    unfolding wrapping_run_def m
    by (simp add: Init_registered_up_to allocations_Reserve [OF r] del: map_map)
  with g have "0 \<in> set (allocations wrapping_run MapManager_alloc)" by simp
  moreover have "Release 0 \<notin> set wrapping_run" by (auto simp: wrapping_run_def)
  ultimately show ?thesis by simp
qed

subsection \<open>The update pass: proofs\<close>

lemma mset_arrange: "mset (arrange cs xs) = mset xs"
proof (induction cs arbitrary: xs)
  case Nil
  show ?case by simp
next
  case (Cons c cs)
  show ?case
  proof (cases "xs = []")
    case True
    then show ?thesis by simp
  next
    case False
    let ?i = "c mod length xs"
    from False have i: "?i < length xs" by simp
    have "mset xs = mset (take ?i xs @ xs ! ?i # drop (Suc ?i) xs)"
      using id_take_nth_drop [OF i] by simp
    then have "mset xs = add_mset (xs ! ?i) (mset (take ?i xs @ drop (Suc ?i) xs))" by simp
    with False Cons.IH [of "take ?i xs @ drop (Suc ?i) xs"] show ?thesis
      by (simp add: Let_def)
  qed
qed

text \<open>
Every order of the elements is the result of some choices.
\<close>

lemma arrange_any_order: "mset ys = mset xs \<Longrightarrow> \<exists>cs. arrange cs xs = ys"
proof (induction ys arbitrary: xs)
  case Nil
  then have "arrange [] xs = []" by simp
  then show ?case by blast
next
  case (Cons y ys)
  from Cons.prems have "y \<in> set xs" by (metis list.set_intros(1) set_mset_mset)
  then obtain i where i: "i < length xs" and y: "xs ! i = y" by (auto simp: in_set_conv_nth)
  let ?r = "take i xs @ drop (Suc i) xs"
  have "mset xs = mset (take i xs @ xs ! i # drop (Suc i) xs)"
    using id_take_nth_drop [OF i] by simp
  then have "mset xs = add_mset y (mset ?r)" by (simp add: y)
  with Cons.prems have "mset ys = mset ?r" by simp
  from Cons.IH [OF this] obtain cs where cs: "arrange cs ?r = ys" by blast
  from i have ne: "xs \<noteq> []" by auto
  from i have "i mod length xs = i" by simp
  with ne cs y have "arrange (i # cs) xs = y # ys" by (simp add: Let_def)
  then show ?case by blast
qed

lemma mset_registry_iteration: "mset (registry_iteration s m) = mset (i_maps m)"
  by (simp add: registry_iteration_def mset_arrange)

lemma mset_primary_pass:
  "mset es = mset (i_maps m) \<Longrightarrow> mset (primary_pass d es) = mset (primary_pass d (i_maps m))"
  unfolding primary_pass_def by (metis mset_map)

lemma mset_delayed_pass:
  "mset es = mset (i_maps m) \<Longrightarrow> mset (delayed_pass d es) = mset (delayed_pass d (i_maps m))"
  unfolding delayed_pass_def by (metis mset_map)

lemma primary_pass_snd: "primary_pass d es = map (\<lambda>mp. Primary mp d) (map snd es)"
  by (simp add: primary_pass_def case_prod_beta)

lemma delayed_pass_snd: "delayed_pass d es = map (\<lambda>mp. Delayed mp d) (map snd es)"
  by (simp add: delayed_pass_def case_prod_beta)

lemma count_primary_pass:
  assumes "distinct (map snd es)" and "(mapid, mp) \<in> set es"
  shows "count (mset (primary_pass d es)) (Primary mp d) = 1"
proof -
  have "inj_on (\<lambda>mp. Primary mp d) (set (map snd es))" by (rule inj_onI) simp
  with assms(1) have "distinct (map snd es) \<and> inj_on (\<lambda>mp. Primary mp d) (set (map snd es))"
    by blast
  then have "distinct (primary_pass d es)"
    unfolding primary_pass_snd by (rule iffD2 [OF distinct_map])
  moreover from assms(2) have "Primary mp d \<in> set (primary_pass d es)"
    unfolding primary_pass_def by force
  ultimately show ?thesis by (simp add: distinct_count_atmost_1)
qed

lemma count_delayed_pass:
  assumes "distinct (map snd es)" and "(mapid, mp) \<in> set es"
  shows "count (mset (delayed_pass d es)) (Delayed mp d) = 1"
proof -
  have "inj_on (\<lambda>mp. Delayed mp d) (set (map snd es))" by (rule inj_onI) simp
  with assms(1) have "distinct (map snd es) \<and> inj_on (\<lambda>mp. Delayed mp d) (set (map snd es))"
    by blast
  then have "distinct (delayed_pass d es)"
    unfolding delayed_pass_snd by (rule iffD2 [OF distinct_map])
  moreover from assms(2) have "Delayed mp d \<in> set (delayed_pass d es)"
    unfolding delayed_pass_def by force
  ultimately show ?thesis by (simp add: distinct_count_atmost_1)
qed

lemma Primary_not_delayed: "Primary mp d \<notin> set (delayed_pass d' es)"
  by (auto simp: delayed_pass_def)

lemma Delayed_not_primary: "Delayed mp d \<notin> set (primary_pass d' es)"
  by (auto simp: primary_pass_def)

lemma Update_below:
  assumes "0 \<le> current (i_timer s)" and "current (i_timer s) + uint diff < interval (i_timer s)"
  shows "Update m diff s = s\<lparr>i_timer := (i_timer s)\<lparr>current := current (i_timer s) + uint diff\<rparr>\<rparr>"
proof -
  have "0 \<le> uint diff" by simp
  with assms have "\<not> current (i_timer s) + uint diff < 0" by linarith
  with assms show ?thesis
    by (simp add: Update_def IntervalTimer_Update_def Passed_def Let_def)
qed

lemma Update_reached:
  assumes "0 \<le> current (i_timer s)" and "interval (i_timer s) \<le> current (i_timer s) + uint diff"
  shows "Update m diff s =
     s\<lparr>delivered := delivered s @
          (let d = (word_of_int (current (i_timer s) + uint diff) :: u32);
               requests = primary_pass d (registry_iteration s m)
           in (if activated (m_updater s) then MapUpdater_wait (m_updater s) requests
               else requests) @ delayed_pass d (registry_iteration s m)),
        i_timer := (i_timer s)\<lparr>current := 0\<rparr>\<rparr>"
proof -
  have "0 \<le> uint diff" by simp
  with assms have "\<not> current (i_timer s) + uint diff < 0" by linarith
  with assms show ?thesis
    by (simp add: Update_def IntervalTimer_Update_def Passed_def SetCurrent_def Let_def
        primary_pass_def delayed_pass_def)
qed

lemma Update_pair_reached:
  assumes T: "0 < T" and s: "interval (i_timer s) = T" "current (i_timer s) = 0"
    and eq: "uint d1 + uint d2 = T"
  shows "Update m d2 (Update m d1 s) =
      s\<lparr>delivered := delivered s @ pass_primaries s m (word_of_int T)
                        @ delayed_pass (word_of_int T) (registry_iteration s m),
        i_timer := (i_timer s)\<lparr>current := 0\<rparr>\<rparr>"
proof -
  have nn: "0 \<le> uint d1" "0 \<le> uint d2" by simp_all
  let ?new = "pass_primaries s m (word_of_int T) @ delayed_pass (word_of_int T) (registry_iteration s m)"
  show ?thesis
  proof (cases "uint d1 < T")
    case True
    have u1: "Update m d1 s = s\<lparr>i_timer := (i_timer s)\<lparr>current := uint d1\<rparr>\<rparr>"
      using True s by (subst Update_below) auto
    have ri: "registry_iteration (s\<lparr>i_timer := (i_timer s)\<lparr>current := uint d1\<rparr>\<rparr>) m = registry_iteration s m"
      by (simp add: registry_iteration_def)
    show ?thesis unfolding u1 using eq s
      by (subst Update_reached) (auto simp: pass_primaries_def ri Let_def)
  next
    case False
    with eq nn have d2: "uint d2 = 0" by linarith
    with eq have d1: "uint d1 = T" by simp
    have u1: "Update m d1 s = s\<lparr>delivered := delivered s @ ?new, i_timer := (i_timer s)\<lparr>current := 0\<rparr>\<rparr>"
      using d1 s by (subst Update_reached) (auto simp: pass_primaries_def Let_def)
    show ?thesis unfolding u1 using d2 s T
      by (subst Update_below) auto
  qed
qed

lemma mset_pass_primaries:
  "mset (pass_primaries s m d) = mset (primary_pass d (i_maps m))"
  by (simp add: pass_primaries_def MapUpdater_wait_def mset_arrange
      mset_primary_pass [OF mset_registry_iteration])

subsection \<open>The registry holds every object once\<close>

lemma i_maps_installed:
  "i_maps (installed e m) = AList.update (ID e) (length (objects m)) (i_maps m)"
  by (simp add: installed_def Let_def DiscoverGridMapFiles_def)

lemma length_objects_installed: "length (objects (installed e m)) = Suc (length (objects m))"
  by (simp add: installed_def Let_def DiscoverGridMapFiles_def)

lemma i_maps_loaded: "i_maps (loaded e a m) = i_maps m"
  by (simp add: loaded_def LoadCorpseData_def LoadRespawnTimes_def)

lemma i_maps_AddChild: "i_maps (AddChildTerrainMap a c m) = i_maps m"
  by (simp add: AddChildTerrainMap_def)

lemma snd_update_subset: "set (map snd (AList.update k v al)) \<subseteq> insert v (set (map snd al))"
  by (induction al) auto

lemma distinct_snd_update:
  "distinct (map snd al) \<Longrightarrow> v \<notin> set (map snd al) \<Longrightarrow> distinct (map snd (AList.update k v al))"
proof (induction al)
  case Nil
  show ?case by simp
next
  case (Cons p al)
  obtain k' v' where p: "p = (k', v')" by (cases p)
  show ?case
  proof (cases "k' = k")
    case True
    with Cons.prems show ?thesis by (simp add: p)
  next
    case False
    from Cons.prems have d: "distinct (map snd al)" and n: "v \<notin> set (map snd al)"
      and v': "v' \<notin> set (map snd al)" and ne: "v' \<noteq> v" by (auto simp: p)
    from snd_update_subset [of k v al] v' ne
    have "v' \<notin> set (map snd (AList.update k v al))" by blast
    with Cons.IH [OF d n] False show ?thesis by (simp add: p)
  qed
qed

lemma registry_distinct_installed:
  assumes "registry_distinct m"
  shows "registry_distinct (installed e m)"
proof -
  let ?n = "length (objects m)"
  from assms have k: "distinct (map fst (i_maps m))" and v: "distinct (map snd (i_maps m))"
    and b: "\<forall>a\<in>set (map snd (i_maps m)). a < ?n"
    by (simp_all add: registry_distinct_def)
  from b have fresh: "?n \<notin> set (map snd (i_maps m))" by blast
  have 1: "distinct (map fst (AList.update (ID e) ?n (i_maps m)))"
    using k by (rule distinct_update)
  have 2: "distinct (map snd (AList.update (ID e) ?n (i_maps m)))"
    using v fresh by (rule distinct_snd_update)
  have 3: "\<forall>a\<in>set (map snd (AList.update (ID e) ?n (i_maps m))). a < Suc ?n"
  proof
    fix a assume "a \<in> set (map snd (AList.update (ID e) ?n (i_maps m)))"
    with snd_update_subset [of "ID e" ?n "i_maps m"]
    have "a = ?n \<or> a \<in> set (map snd (i_maps m))" by blast
    with b show "a < Suc ?n" by (auto simp: less_Suc_eq)
  qed
  from 1 2 3 show ?thesis
    unfolding registry_distinct_def i_maps_installed length_objects_installed by blast
qed

lemma registry_distinct_loaded: "registry_distinct (loaded e a m) = registry_distinct m"
  by (simp add: registry_distinct_def i_maps_loaded length_objects_loaded)

lemma registry_distinct_AddChild:
  "registry_distinct (AddChildTerrainMap a c m) = registry_distinct m"
  by (simp add: registry_distinct_def i_maps_AddChild)

lemma add_children_distinct:
  assumes IH: "\<And>e m a m1. registry_distinct m \<Longrightarrow>
                 CreateBaseMap_i w n e m = Some (Inr (a, m1)) \<Longrightarrow> registry_distinct m1"
  shows "registry_distinct m \<Longrightarrow> add_children w n a cs m = Some (Inr m') \<Longrightarrow>
           registry_distinct m'"
proof (induction cs arbitrary: m)
  case Nil
  then show ?case by simp
next
  case (Cons c cs)
  from add_children_ConsD [OF Cons.prems(2)] obtain e ch m1 where
    cr: "CreateBaseMap_i w n e m = Some (Inr (ch, m1))"
    and rest: "add_children w n a cs (AddChildTerrainMap a ch m1) = Some (Inr m')" by blast
  from IH [OF Cons.prems(1) cr] have "registry_distinct (AddChildTerrainMap a ch m1)"
    by (simp only: registry_distinct_AddChild)
  from Cons.IH [OF this rest] show ?case .
qed

lemma CreateBaseMap_i_distinct:
  "registry_distinct m \<Longrightarrow> CreateBaseMap_i w n e m = Some (Inr (a, m1)) \<Longrightarrow>
     registry_distinct m1"
proof (induction n arbitrary: e m a m1)
  case 0
  then show ?case by simp
next
  case (Suc n)
  from CreateBaseMap_i_SucD [OF Suc.prems(2)] obtain m4 where
    ch: "add_children w n a (parentMapData w (ID e)) (installed e m) = Some (Inr m4)"
    and m1: "m1 = loaded e a m4" by blast
  have "registry_distinct m4"
    by (rule add_children_distinct [OF _ registry_distinct_installed [OF Suc.prems(1)] ch])
      (rule Suc.IH; assumption)
  then show ?case by (simp only: m1 registry_distinct_loaded)
qed

lemma CreateBaseMap_distinct:
  "registry_distinct m \<Longrightarrow> CreateBaseMap w n x m = Some (Inr (a, m1)) \<Longrightarrow>
     registry_distinct m1"
proof (induction n arbitrary: x a m1)
  case 0
  then show ?case by simp
next
  case (Suc n)
  show ?case
  proof (cases "FindBaseMap m x")
    case (Some b)
    with Suc.prems show ?thesis by simp
  next
    case None
    with Suc.prems(2) obtain e where e: "LookupEntry w x = Some e"
      by (auto simp: AssertEntry_def split: option.splits)
    show ?thesis
    proof (cases "parent_of e")
      case (Some p)
      with Suc.prems(2) None e obtain a' where "CreateBaseMap w n p m = Some (Inr (a', m1))"
        by (auto simp: AssertEntry_def split: option.splits sum.splits)
      from Suc.IH [OF Suc.prems(1) this] show ?thesis .
    next
      case N: None
      with Suc.prems(2) None e have cr: "CreateBaseMap_i w n e m = Some (Inr (a, m1))"
        by (simp add: AssertEntry_def)
      from CreateBaseMap_i_distinct [OF Suc.prems(1) cr] show ?thesis .
    qed
  qed
qed

lemma registry_distinct_empty: "registry_distinct empty_manager"
  by (simp add: registry_distinct_def empty_manager_def)

lemma example_registry_distinct: "registry_distinct example_created"
  by (simp add: registry_distinct_def example_created_def)

lemma example_registry_iteration:
  "registry_iteration example_scheduler example_created = [(3, 2), (2, 1), (1, 0)]"
  "registry_iteration example_pool_scheduler example_created = [(3, 2), (2, 1), (1, 0)]"
  by (simp_all add: registry_iteration_def example_pool_scheduler_def example_scheduler_def
      example_created_def Let_def)

lemma example_pool_pass:
  "delivered (Update example_created 60 (Update example_created 40 example_pool_scheduler)) =
     [Primary 1 100, Primary 2 100, Primary 0 100, Delayed 2 100, Delayed 1 100, Delayed 0 100]"
proof -
  have h: "(0 :: int) < 100" "interval (i_timer example_pool_scheduler) = 100"
    "current (i_timer example_pool_scheduler) = 0"
    by (simp_all add: example_pool_scheduler_def example_scheduler_def)
  have a: "uint (40 :: u32) + uint (60 :: u32) = 100" by simp
  have w: "pass_primaries example_pool_scheduler example_created (word_of_int 100) =
             [Primary 1 100, Primary 2 100, Primary 0 100]"
    unfolding pass_primaries_def example_registry_iteration
    by (simp add: example_pool_scheduler_def example_scheduler_def MapUpdater_wait_def
        primary_pass_def Let_def)
  have d: "delayed_pass (word_of_int 100) [(3, 2), (2, 1), (1, 0 :: nat)] =
             [Delayed 2 100, Delayed 1 100, Delayed 0 100]"
    by (simp add: delayed_pass_def)
  have e: "delivered example_pool_scheduler = []"
    by (simp add: example_pool_scheduler_def example_scheduler_def)
  show ?thesis
    unfolding Update_pair_reached [OF h a] w example_registry_iteration d e by simp
qed

subsection \<open>The pass of two calls\<close>

text \<open>
  Claim C5. With interval \<open>T > 0\<close> and the timer at zero, two calls with \<open>d1\<close> and \<open>d2\<close>:
  if \<open>d1 + d2 < T\<close> nothing is delivered and the time is accumulated; if \<open>d1 + d2 = T\<close> the
  timer is back at zero and what is delivered is one pass \<open>P @ D\<close>. \<open>P\<close> holds one primary
  update for every entry of the registry and nothing else, in the order of the registry
  iteration when the updater is not activated and in any order the workers choose
  otherwise. \<open>D\<close> holds one delayed update for every entry of the registry and nothing
  else, in the order of the registry iteration, and comes after all of \<open>P\<close>. When the
  registry holds every object once, every registered map receives exactly one primary
  and exactly one delayed update.
\<close>

theorem Update_two_calls:
  assumes T: "0 < T" and s: "interval (i_timer s) = T" "current (i_timer s) = 0"
  shows "(uint d1 + uint d2 < T \<longrightarrow>
            delivered (Update m d2 (Update m d1 s)) = delivered s \<and>
            current (i_timer (Update m d2 (Update m d1 s))) = uint d1 + uint d2) \<and>
         (uint d1 + uint d2 = T \<longrightarrow>
            current (i_timer (Update m d2 (Update m d1 s))) = 0 \<and>
            (\<exists>P D. delivered (Update m d2 (Update m d1 s)) = delivered s @ P @ D \<and>
               mset P = mset (primary_pass (word_of_int T) (i_maps m)) \<and>
               mset D = mset (delayed_pass (word_of_int T) (i_maps m)) \<and>
               (\<not> activated (m_updater s) \<longrightarrow>
                  P = primary_pass (word_of_int T) (registry_iteration s m)) \<and>
               D = delayed_pass (word_of_int T) (registry_iteration s m) \<and>
               (registry_distinct m \<longrightarrow>
                  (\<forall>mapid mp. FindBaseMap m mapid = Some mp \<longrightarrow>
                     count_list (P @ D) (Primary mp (word_of_int T)) = 1 \<and>
                     count_list (P @ D) (Delayed mp (word_of_int T)) = 1))))"
proof (intro conjI impI)
  assume lt: "uint d1 + uint d2 < T"
  have d2: "0 \<le> uint d2" by simp
  with lt have lt1: "uint d1 < T" by linarith
  have u1: "Update m d1 s = s\<lparr>i_timer := (i_timer s)\<lparr>current := uint d1\<rparr>\<rparr>"
    using lt1 s by (subst Update_below) auto
  have u2: "Update m d2 (Update m d1 s) =
      s\<lparr>i_timer := (i_timer s)\<lparr>current := uint d1 + uint d2\<rparr>\<rparr>"
    using lt s unfolding u1 by (subst Update_below) auto
  show "delivered (Update m d2 (Update m d1 s)) = delivered s" by (simp add: u2)
  show "current (i_timer (Update m d2 (Update m d1 s))) = uint d1 + uint d2" by (simp add: u2)
next
  assume eq: "uint d1 + uint d2 = T"
  note r = Update_pair_reached [OF T s eq, of m]
  show "current (i_timer (Update m d2 (Update m d1 s))) = 0" by (simp add: r)
  let ?d = "word_of_int T :: u32"
  let ?P = "pass_primaries s m ?d"
  let ?D = "delayed_pass ?d (registry_iteration s m)"
  have 1: "delivered (Update m d2 (Update m d1 s)) = delivered s @ ?P @ ?D" by (simp add: r)
  have 2: "mset ?P = mset (primary_pass ?d (i_maps m))" by (rule mset_pass_primaries)
  have 3: "mset ?D = mset (delayed_pass ?d (i_maps m))"
    by (rule mset_delayed_pass [OF mset_registry_iteration])
  have 4: "\<not> activated (m_updater s) \<longrightarrow> ?P = primary_pass ?d (registry_iteration s m)"
    by (simp add: pass_primaries_def)
  have 5: "registry_distinct m \<longrightarrow>
             (\<forall>mapid mp. FindBaseMap m mapid = Some mp \<longrightarrow>
                count_list (?P @ ?D) (Primary mp ?d) = 1 \<and>
                count_list (?P @ ?D) (Delayed mp ?d) = 1)"
  proof (intro impI allI)
    fix mapid mp
    assume rd: "registry_distinct m" and f: "FindBaseMap m mapid = Some mp"
    from rd have dv: "distinct (map snd (i_maps m))" by (simp add: registry_distinct_def)
    from f have mem: "(mapid, mp) \<in> set (i_maps m)"
      unfolding FindBaseMap_def by (rule map_of_SomeD)
    have p: "count_list ?P (Primary mp ?d) = 1"
      using count_primary_pass [OF dv mem, of ?d] 2 by (simp flip: count_mset)
    have q: "count_list ?D (Delayed mp ?d) = 1"
      using count_delayed_pass [OF dv mem, of ?d] 3 by (simp flip: count_mset)
    have "Primary mp ?d \<notin> set ?D" by (rule Primary_not_delayed)
    then have p0: "count_list ?D (Primary mp ?d) = 0" by (rule iffD2 [OF count_list_0_iff])
    have "Delayed mp ?d \<notin> set (primary_pass ?d (i_maps m))" by (rule Delayed_not_primary)
    then have "Delayed mp ?d \<notin> set ?P" using 2 by (metis set_mset_mset)
    then have q0: "count_list ?P (Delayed mp ?d) = 0" by (rule iffD2 [OF count_list_0_iff])
    from p q p0 q0 show "count_list (?P @ ?D) (Primary mp ?d) = 1 \<and>
        count_list (?P @ ?D) (Delayed mp ?d) = 1" by simp
  qed
  from 1 2 3 4 5 show "\<exists>P D. delivered (Update m d2 (Update m d1 s)) = delivered s @ P @ D \<and>
               mset P = mset (primary_pass (word_of_int T) (i_maps m)) \<and>
               mset D = mset (delayed_pass (word_of_int T) (i_maps m)) \<and>
               (\<not> activated (m_updater s) \<longrightarrow>
                  P = primary_pass (word_of_int T) (registry_iteration s m)) \<and>
               D = delayed_pass (word_of_int T) (registry_iteration s m) \<and>
               (registry_distinct m \<longrightarrow>
                  (\<forall>mapid mp. FindBaseMap m mapid = Some mp \<longrightarrow>
                     count_list (P @ D) (Primary mp (word_of_int T)) = 1 \<and>
                     count_list (P @ D) (Delayed mp (word_of_int T)) = 1))"
    by blast
qed

text \<open>
  Claim C5, witness: interval 100 with 30 + 60 and with 40 + 60, a registry of three maps
  that is iterated from the last inserted to the first, without workers and with workers
  that finish the second request first.
\<close>

theorem Update_two_calls_witness:
  "(0 :: int) < 100 \<and> interval (i_timer example_scheduler) = 100 \<and>
   current (i_timer example_scheduler) = 0 \<and>
   uint (30 :: u32) + uint (60 :: u32) < 100 \<and>
   delivered (Update example_created 60 (Update example_created 30 example_scheduler)) = [] \<and>
   current (i_timer (Update example_created 60 (Update example_created 30 example_scheduler))) = 90 \<and>
   uint (40 :: u32) + uint (60 :: u32) = 100 \<and>
   \<not> activated (m_updater example_scheduler) \<and> registry_distinct example_created \<and>
   FindBaseMap example_created 3 = Some 2 \<and>
   delivered (Update example_created 60 (Update example_created 40 example_scheduler)) =
     [Primary 2 100, Primary 1 100, Primary 0 100, Delayed 2 100, Delayed 1 100, Delayed 0 100] \<and>
   current (i_timer (Update example_created 60 (Update example_created 40 example_scheduler))) = 0 \<and>
   activated (m_updater example_pool_scheduler) \<and>
   delivered (Update example_created 60 (Update example_created 40 example_pool_scheduler)) =
     [Primary 1 100, Primary 2 100, Primary 0 100, Delayed 2 100, Delayed 1 100, Delayed 0 100] \<and>
   count_list (delivered (Update example_created 60 (Update example_created 40 example_pool_scheduler)))
     (Primary 2 100) = 1 \<and>
   count_list (delivered (Update example_created 60 (Update example_created 40 example_pool_scheduler)))
     (Delayed 2 100) = 1"
proof -
  have h: "(0 :: int) < 100" "interval (i_timer example_scheduler) = 100"
    "current (i_timer example_scheduler) = 0"
    by (simp_all add: example_scheduler_def)
  have hp: "interval (i_timer example_pool_scheduler) = 100"
    "current (i_timer example_pool_scheduler) = 0"
    by (simp_all add: example_pool_scheduler_def example_scheduler_def)
  have a: "uint (30 :: u32) + uint (60 :: u32) < 100" "uint (40 :: u32) + uint (60 :: u32) = 100"
    by simp_all
  have s: "\<not> activated (m_updater example_scheduler)" "delivered example_scheduler = []"
    "activated (m_updater example_pool_scheduler)" "delivered example_pool_scheduler = []"
    by (simp_all add: example_pool_scheduler_def example_scheduler_def)
  have f: "FindBaseMap example_created 3 = Some 2"
    by (simp add: FindBaseMap_def example_created_def)
  have p: "primary_pass (word_of_int 100) [(3, 2), (2, 1), (1, 0 :: nat)] =
             [Primary 2 100, Primary 1 100, Primary 0 100]"
    "delayed_pass (word_of_int 100) [(3, 2), (2, 1), (1, 0 :: nat)] =
             [Delayed 2 100, Delayed 1 100, Delayed 0 100]"
    by (simp_all add: primary_pass_def delayed_pass_def)
  from Update_two_calls [OF h, of 30 60 example_created] a(1) s(2)
  have x: "delivered (Update example_created 60 (Update example_created 30 example_scheduler)) = []"
    "current (i_timer (Update example_created 60 (Update example_created 30 example_scheduler))) = 90"
    by simp_all
  from Update_two_calls [OF h, of 40 60 example_created] a(2) s(1,2)
  have y: "delivered (Update example_created 60 (Update example_created 40 example_scheduler)) =
     [Primary 2 100, Primary 1 100, Primary 0 100, Delayed 2 100, Delayed 1 100, Delayed 0 100]"
    "current (i_timer (Update example_created 60 (Update example_created 40 example_scheduler))) = 0"
    unfolding example_registry_iteration p by auto
  from Update_two_calls [OF h(1) hp, of 40 60 example_created] a(2)
  obtain P D where
    e: "delivered (Update example_created 60 (Update example_created 40 example_pool_scheduler)) =
          delivered example_pool_scheduler @ P @ D"
    and c: "registry_distinct example_created \<longrightarrow>
          (\<forall>mapid mp. FindBaseMap example_created mapid = Some mp \<longrightarrow>
             count_list (P @ D) (Primary mp (word_of_int 100)) = 1 \<and>
             count_list (P @ D) (Delayed mp (word_of_int 100)) = 1)"
    by blast
  from c example_registry_distinct f
  have "count_list (P @ D) (Primary 2 (word_of_int 100)) = 1 \<and>
        count_list (P @ D) (Delayed 2 (word_of_int 100)) = 1" by blast
  with e s(4)
  have z: "count_list (delivered (Update example_created 60 (Update example_created 40 example_pool_scheduler)))
     (Primary 2 100) = 1 \<and>
   count_list (delivered (Update example_created 60 (Update example_created 40 example_pool_scheduler)))
     (Delayed 2 100) = 1"
    by simp
  from h a x y z s(1,3) f example_registry_distinct example_pool_pass show ?thesis by simp
qed

end
